theory Spec2Isabelle
  imports Complex_Main "HOL-Library.Sublist"
begin

section \<open>Python strings\<close>

text \<open>
  A Python \<open>str\<close> is a sequence of code points. The model covers the code points below
  256: a \<^typ>\<open>char\<close> is one code point (not one byte of an encoding), so the guillemets of
  the page navigation phrase are the single characters \<open>0xAB\<close> and \<open>0xBB\<close>.
\<close>

definition isspace :: "char \<Rightarrow> bool" where
  \<comment> \<open>\<open>str.isspace\<close> on one code point below 256: the whitespace of \<open>strip\<close>,
      \<open>split\<close> and the regular expression class \<open>\s\<close>.\<close>
  "isspace c =
     (let n = (of_char c :: nat)
      in (9 \<le> n \<and> n \<le> 13) \<or> (28 \<le> n \<and> n \<le> 32) \<or> n = 133 \<or> n = 160)"

definition strip :: "string \<Rightarrow> string" where
  \<comment> \<open>\<open>s.strip()\<close>\<close>
  "strip s = rev (dropWhile isspace (rev (dropWhile isspace s)))"

fun split_ws :: "string \<Rightarrow> string \<Rightarrow> string list" where
  "split_ws cur [] = (if cur = [] then [] else [cur])"
| "split_ws cur (c # cs) =
     (if isspace c then (if cur = [] then split_ws [] cs else cur # split_ws [] cs)
      else split_ws (cur @ [c]) cs)"

definition py_split :: "string \<Rightarrow> string list" where
  \<comment> \<open>\<open>s.split()\<close>: the words between runs of whitespace\<close>
  "py_split s = split_ws [] s"

function split_on :: "string \<Rightarrow> string \<Rightarrow> string \<Rightarrow> string list" where
  \<comment> \<open>\<open>s.split(sep)\<close> for a separator that is not empty, scanning from the left;
      \<open>cur\<close> is the part read so far\<close>
  "split_on sep cur s =
     (if s = [] then [cur]
      else if sep \<noteq> [] \<and> prefix sep s then cur # split_on sep [] (drop (length sep) s)
      else split_on sep (cur @ [hd s]) (tl s))"
  by pat_completeness auto
termination
  by (relation "measure (\<lambda>(sep, cur, s). length s)") auto

declare split_on.simps [simp del]

fun join :: "string \<Rightarrow> string list \<Rightarrow> string" where
  \<comment> \<open>\<open>sep.join(parts)\<close>\<close>
  "join sep [] = []"
| "join sep [x] = x"
| "join sep (x # y # ys) = x @ sep @ join sep (y # ys)"

definition truthy :: "string option \<Rightarrow> bool" where
  \<comment> \<open>the truth value of an optional string: \<open>None\<close> and \<open>''\<close> are false\<close>
  "truthy s = (case s of None \<Rightarrow> False | Some t \<Rightarrow> t \<noteq> [])"

definition or_empty :: "string option \<Rightarrow> string" where
  \<comment> \<open>\<open>s or ''\<close>\<close>
  "or_empty s = (case s of None \<Rightarrow> [] | Some t \<Rightarrow> t)"

definition unescape :: "(string \<Rightarrow> string) \<Rightarrow> string \<Rightarrow> string" where
  \<comment> \<open>\<open>html.unescape\<close> of the standard library: a string without an ampersand is
      returned as it is, otherwise the character references are replaced. The replacement
      (it needs the table of HTML5 entities) is the parameter \<open>charrefs\<close>.\<close>
  "unescape charrefs s = (if CHR ''&'' \<notin> set s then s else charrefs s)"

fun collapse_ws :: "bool \<Rightarrow> string \<Rightarrow> string" where
  \<comment> \<open>every run of whitespace becomes one space; the flag says that the previous
      character was whitespace\<close>
  "collapse_ws in_run [] = []"
| "collapse_ws in_run (c # cs) =
     (if isspace c then (if in_run then collapse_ws True cs else CHR '' '' # collapse_ws True cs)
      else c # collapse_ws False cs)"

definition innerTrim :: "string \<Rightarrow> string" where
  \<comment> \<open>Modelled from the spec: \<open>innerTrim\<close> of the module \<open>text\<close>, which is not among the
      sources. The spec: collapse internal whitespace runs to single spaces, trim ends.\<close>
  "innerTrim s = strip (collapse_ws False s)"

definition newline_marker :: string where
  \<comment> \<open>the raw string \<open>r'\n'\<close>: a backslash and the letter n, not a line break\<close>
  "newline_marker = [CHR 0x5C, CHR ''n'']"

definition blank_line :: string where
  \<comment> \<open>\<open>'\n\n'\<close>: two line feeds\<close>
  "blank_line = [CHR 0x0A, CHR 0x0A]"


section \<open>Elements\<close>

text \<open>
  An lxml element: its tag, its attributes, the text before its first child, the text
  that follows it inside its parent (its tail) and its children in document order. The
  parent of an element is passed beside it where the code asks for it.
\<close>

datatype element =
  Element (tag: string) (attrib: "(string \<times> string) list") (node_text: "string option")
    (tail: "string option") (children: "element list")

definition get_attr :: "element \<Rightarrow> string \<Rightarrow> string option" where
  \<comment> \<open>\<open>dict(node.items()).get(name)\<close>\<close>
  "get_attr node name = map_of (attrib node) name"

definition classes :: "element \<Rightarrow> string list" where
  \<comment> \<open>\<open>node.classes\<close>: the words of the \<open>class\<close> attribute\<close>
  "classes node = py_split (or_empty (get_attr node ''class''))"

fun iter :: "element \<Rightarrow> element list" where
  \<comment> \<open>\<open>node.iter()\<close>: the element and its descendants in document order\<close>
  "iter (Element t a x y cs) = Element t a x y cs # concat (map iter cs)"

fun iter_parent :: "element option \<Rightarrow> element \<Rightarrow> (element option \<times> element) list" where
  \<comment> \<open>\<open>node.iter()\<close>, each element with what \<open>getparent()\<close> returns for it\<close>
  "iter_parent p (Element t a x y cs) =
     (p, Element t a x y cs) # concat (map (iter_parent (Some (Element t a x y cs))) cs)"


section \<open>NodeTextExclusion\<close>

definition EXCLUDED_TAGS :: "string set" where
  "EXCLUDED_TAGS = {''figure'', ''figcaption''}"

definition AD_CLASSES :: "string set" where
  "AD_CLASSES = {''js_ad-mobile-dynamic'', ''js_ad-dynamic'', ''ad-mobile-dynamic'', ''movable-ad''}"

definition OBJECT_DESCRIPTIONS :: "string set" where
  "OBJECT_DESCRIPTIONS = {''bold'', ''detailImageDesc'', ''credits''}"

definition navigation_phrase :: string where
  "navigation_phrase = CHR 0xAB # '' previous post | next post '' @ [CHR 0xBB]"

definition PAGE_NAVIGATION :: "string set" where
  "PAGE_NAVIGATION = {navigation_phrase, ''prevnext''}"

definition IGNORED_CLASSES :: "string set" where
  "IGNORED_CLASSES = {''audioplayer_container'', ''postfeedback''}"

definition IGNORED_TEXT_search :: "string \<Rightarrow> bool" where
  \<comment> \<open>\<open>IGNORED_TEXT.search(s)\<close> finds a match: one of the two alternatives of the
      pattern occurs somewhere in \<open>s\<close>\<close>
  "IGNORED_TEXT_search s = (sublist ''Permalink'' s \<or> sublist ''Share link'' s)"

definition has_ignored_class :: "element option \<Rightarrow> element \<Rightarrow> bool" where
  "has_ignored_class parent node = (set (classes node) \<inter> IGNORED_CLASSES \<noteq> {})"

definition has_ads :: "element option \<Rightarrow> element \<Rightarrow> bool" where
  "has_ads parent node = (tag node = ''div'' \<and> set (classes node) \<inter> AD_CLASSES \<noteq> {})"

definition looks_like_object_description :: "element option \<Rightarrow> element \<Rightarrow> bool" where
  "looks_like_object_description parent node =
     (tag node = ''span'' \<and> set (classes node) \<inter> OBJECT_DESCRIPTIONS \<noteq> {})"

definition looks_like_page_navigation :: "element option \<Rightarrow> element \<Rightarrow> bool" where
  "looks_like_page_navigation parent node =
     (if strip (or_empty (node_text node)) \<in> PAGE_NAVIGATION then True
      else if tag node = ''p'' \<and>
        (case get_attr node ''id'' of None \<Rightarrow> False | Some i \<Rightarrow> i \<in> PAGE_NAVIGATION) then True
      else False)"

definition is_tag_excluded :: "element option \<Rightarrow> element \<Rightarrow> bool" where
  \<comment> \<open>\<open>parent\<close> is what \<open>node.getparent()\<close> returns; an element that has a child is true
      as a condition\<close>
  "is_tag_excluded parent node =
     (if tag node \<in> EXCLUDED_TAGS then True
      else if (case parent of None \<Rightarrow> False | Some p \<Rightarrow> tag p \<in> EXCLUDED_TAGS) then True
      else False)"

definition ignored_by_content :: "element option \<Rightarrow> element \<Rightarrow> bool" where
  "ignored_by_content parent node =
     (if truthy (node_text node) then IGNORED_TEXT_search (the (node_text node)) else False)"

definition filter_methods :: "(element option \<Rightarrow> element \<Rightarrow> bool) list" where
  "filter_methods =
     [is_tag_excluded, has_ads, looks_like_object_description, looks_like_page_navigation,
      has_ignored_class, ignored_by_content]"

fun first_match :: "(element option \<Rightarrow> element \<Rightarrow> bool) list \<Rightarrow> element option \<Rightarrow> element \<Rightarrow> bool" where
  \<comment> \<open>the loop of \<open>is_excluded\<close>: return at the first method that holds\<close>
  "first_match [] parent node = False"
| "first_match (m # ms) parent node = (if m parent node then True else first_match ms parent node)"

definition is_excluded :: "element option \<Rightarrow> element \<Rightarrow> bool" where
  "is_excluded parent node = first_match filter_methods parent node"

text \<open>
  The fourth condition as the spec words it: the trimmed direct text equals the sentinel
  phrase, or a paragraph's id equals the sentinel id. The other five are the code's.
\<close>

definition spec_page_navigation :: "element option \<Rightarrow> element \<Rightarrow> bool" where
  "spec_page_navigation parent node =
     (strip (or_empty (node_text node)) = navigation_phrase \<or>
      (tag node = ''p'' \<and> get_attr node ''id'' = Some ''prevnext''))"

definition spec_is_excluded :: "element option \<Rightarrow> element \<Rightarrow> bool" where
  "spec_is_excluded parent node =
     (is_tag_excluded parent node \<or> has_ads parent node \<or>
      looks_like_object_description parent node \<or> spec_page_navigation parent node \<or>
      has_ignored_class parent node \<or> ignored_by_content parent node)"


section \<open>NodeTextExtractor\<close>

definition text_parts :: "string option \<Rightarrow> string \<Rightarrow> string list" where
  \<comment> \<open>the inner loop of \<open>extract_text\<close> for one text element: the parts between the
      markers that are not empty and not the title\<close>
  "text_parts title text_element =
     filter (\<lambda>part. \<not> (truthy title \<and> Some part = title))
       (filter (\<lambda>part. part \<noteq> []) (split_on newline_marker [] text_element))"

definition extract_text ::
  "(string \<Rightarrow> string) \<Rightarrow> element option \<Rightarrow> element \<Rightarrow> string option \<Rightarrow> string list" where
  \<comment> \<open>\<open>extract_text\<close> is a generator: the list is what it yields. \<open>return None\<close>
      ends the generator before the first \<open>yield\<close>.\<close>
  "extract_text charrefs parent node title =
     (if is_excluded parent node then []
      else
        let filtered_nodes = filter (\<lambda>(p, child). \<not> is_excluded p child) (iter_parent parent node);
            text_elements =
              map (\<lambda>(p, child). innerTrim (unescape charrefs (the (node_text child))))
                (filter (\<lambda>(p, child). truthy (node_text child)) filtered_nodes)
        in concat (map (text_parts title) text_elements))"


section \<open>OutputFormatter: the text\<close>

definition flattened_elements ::
  "(string \<Rightarrow> string) \<Rightarrow> element \<Rightarrow> string option \<Rightarrow> string list" where
  \<comment> \<open>The first two statements of \<open>convert_to_text\<close>. Iterating over the top node
      gives its children. A generator object is true as a condition whatever it yields, so
      \<open>filter(None, ...)\<close> keeps every one; \<open>chain.from_iterable\<close> concatenates.\<close>
  "flattened_elements charrefs top_node title =
     (let text_elements =
            filter (\<lambda>generator. True)
              (map (\<lambda>node. extract_text charrefs (Some top_node) node title) (children top_node))
      in concat text_elements)"

definition convert_to_text :: "(string \<Rightarrow> string) \<Rightarrow> element \<Rightarrow> string option \<Rightarrow> string" where
  \<comment> \<open>\<open>next(flattened_elements, None)\<close> takes the first fragment out of the iterator;
      the join chains it back (or not) before the rest\<close>
  "convert_to_text charrefs top_node title =
     (let flattened = flattened_elements charrefs top_node title;
          first_element = (case flattened of [] \<Rightarrow> None | f # rest \<Rightarrow> Some f);
          elements =
            (if truthy first_element \<and> length (py_split (the first_element)) \<noteq> 1
             then [the first_element] else [])
      in join blank_line (elements @ tl flattened))"


section \<open>Numbers from strings\<close>

datatype error = ValueError | TypeError

text \<open>
  The value of \<open>float(s)\<close> as far as the comparison with 1 needs it: the exact value of
  the decimal literal, or one of the three special values. A string that \<open>float\<close> does
  not accept raises \<open>ValueError\<close>.
\<close>

datatype pyfloat = Finite rat | PosInf | NegInf | NaN

definition is_digit :: "char \<Rightarrow> bool" where
  "is_digit c = (let n = (of_char c :: nat) in 48 \<le> n \<and> n \<le> 57)"

fun digitpart :: "string \<Rightarrow> bool" where
  \<comment> \<open>digits, with single underscores allowed between two digits\<close>
  "digitpart [] = False"
| "digitpart [c] = is_digit c"
| "digitpart (c # d # cs) = (is_digit c \<and> (if d = CHR ''_'' then digitpart cs else digitpart (d # cs)))"

definition digits_value :: "string \<Rightarrow> nat" where
  "digits_value s = foldl (\<lambda>n c. 10 * n + (of_char c - 48)) 0 (filter is_digit s)"

definition lower :: "string \<Rightarrow> string" where
  \<comment> \<open>the ASCII letters in lower case\<close>
  "lower s =
     map (\<lambda>c. let n = (of_char c :: nat) in if 65 \<le> n \<and> n \<le> 90 then char_of (n + 32) else c) s"

definition split_sign :: "string \<Rightarrow> bool \<times> string" where
  \<comment> \<open>an optional sign: whether it is a minus, and the rest\<close>
  "split_sign s =
     (case s of [] \<Rightarrow> (False, [])
      | c # cs \<Rightarrow> if c = CHR ''-'' then (True, cs) else if c = CHR ''+'' then (False, cs)
                  else (False, s))"

definition parse_exponent :: "string \<Rightarrow> int option" where
  "parse_exponent s =
     (let (neg, ds) = split_sign s
      in if digitpart ds then Some (if neg then - int (digits_value ds) else int (digits_value ds))
         else None)"

definition parse_number :: "string \<Rightarrow> rat option" where
  \<comment> \<open>a decimal literal without sign: digits with an optional point, at least one digit
      before or after it, and an optional exponent\<close>
  "parse_number s =
     (let mant = takeWhile (\<lambda>c. c \<noteq> CHR ''e'' \<and> c \<noteq> CHR ''E'') s;
          after = dropWhile (\<lambda>c. c \<noteq> CHR ''e'' \<and> c \<noteq> CHR ''E'') s;
          exponent = (if after = [] then Some 0 else parse_exponent (tl after));
          ip = takeWhile (\<lambda>c. c \<noteq> CHR ''.'') mant;
          point = dropWhile (\<lambda>c. c \<noteq> CHR ''.'') mant;
          fp = (if point = [] then [] else tl point);
          mantissa_ok =
            (if point = [] then digitpart ip
             else (ip = [] \<or> digitpart ip) \<and> (fp = [] \<or> digitpart fp) \<and> \<not> (ip = [] \<and> fp = []))
      in case exponent of None \<Rightarrow> None
         | Some e \<Rightarrow>
            if mantissa_ok
            then Some (of_nat (digits_value (ip @ fp)) *
                       10 powi (e - int (length (filter is_digit fp))))
            else None)"

definition py_float :: "string \<Rightarrow> error + pyfloat" where
  \<comment> \<open>\<open>float(s)\<close>: blanks around the literal are dropped, a sign may come first\<close>
  "py_float s =
     (let (neg, body) = split_sign (strip s)
      in if lower body = ''inf'' \<or> lower body = ''infinity'' then Inr (if neg then NegInf else PosInf)
         else if lower body = ''nan'' then Inr NaN
         else case parse_number body of None \<Rightarrow> Inl ValueError
              | Some v \<Rightarrow> Inr (Finite (if neg then - v else v)))"

definition below_one :: "pyfloat \<Rightarrow> bool" where
  \<comment> \<open>\<open>score < 1\<close>. The float of a literal is the double nearest to its value, ties to
      the even one: it is below 1 exactly when the value is below the midpoint of 1 and
      the double before it.\<close>
  "below_one v =
     (case v of Finite q \<Rightarrow> q < 1 - 1 / 2 ^ 54 | NegInf \<Rightarrow> True | PosInf \<Rightarrow> False | NaN \<Rightarrow> False)"


section \<open>The tree access facade\<close>

text \<open>
  The parser that \<open>OutputFormatter\<close> calls is not among the sources. Its operations are
  modelled from the spec's description of the tree access facade (read tag, attributes,
  text and children, detach a node, unwrap a node into its parent) on the elements above.
  Detaching (\<open>parser.remove\<close>, and \<open>remove\<close> of lxml in the score pruning) takes an
  element with its subtree and the text that follows it out of the children of its parent;
  in the passes below it is the removal of an element from a list of children.
\<close>

definition set_text :: "string option \<Rightarrow> element \<Rightarrow> element" where
  \<comment> \<open>\<open>node.text = s\<close>\<close>
  "set_text s node = Element (tag node) (attrib node) s (tail node) (children node)"

definition set_tail :: "string option \<Rightarrow> element \<Rightarrow> element" where
  "set_tail s node = Element (tag node) (attrib node) (node_text node) s (children node)"

definition set_children :: "element list \<Rightarrow> element \<Rightarrow> element" where
  "set_children cs node = Element (tag node) (attrib node) (node_text node) (tail node) cs"

definition descendants :: "element \<Rightarrow> element list" where
  \<comment> \<open>the elements below a node, in document order\<close>
  "descendants node = concat (map iter (children node))"

definition getChildren :: "element \<Rightarrow> element list" where
  \<comment> \<open>Modelled from the spec: \<open>parser.getChildren\<close> (read children).\<close>
  "getChildren node = children node"

definition getTag :: "element \<Rightarrow> string" where
  \<comment> \<open>Modelled from the spec: \<open>parser.getTag\<close> (read tag).\<close>
  "getTag node = tag node"

definition getAttribute :: "element \<Rightarrow> string \<Rightarrow> string option" where
  \<comment> \<open>Modelled from the spec: \<open>parser.getAttribute\<close> (read attributes); \<open>None\<close> for
      an attribute the node does not have.\<close>
  "getAttribute node name = get_attr node name"

definition getElementsByTag :: "element \<Rightarrow> string \<Rightarrow> element list" where
  \<comment> \<open>Modelled from the spec: \<open>parser.getElementsByTag(node, tag=t)\<close>, the descendants
      of the node with the tag, in document order (every forced-break element, every
      list container, the embedded-object descendants of a node).\<close>
  "getElementsByTag node t = filter (\<lambda>e. tag e = t) (descendants node)"

definition css_select_gravity :: "element \<Rightarrow> element list" where
  \<comment> \<open>Modelled from the spec: \<open>parser.css_select(node, "*[gravityScore]")\<close>, every
      descendant with a gravityScore attribute, in document order.\<close>
  "css_select_gravity node = filter (\<lambda>e. get_attr e ''gravityScore'' \<noteq> None) (descendants node)"

fun itertext :: "element \<Rightarrow> string list" where
  \<comment> \<open>the texts of the node and of its descendants in document order: a node's text,
      then for each child its texts and the text that follows it\<close>
  "itertext (Element t a x y cs) =
     (if truthy x then [the x] else []) @
     concat (map (\<lambda>c. itertext c @ (if truthy (tail c) then [the (tail c)] else [])) cs)"

definition getText :: "element \<Rightarrow> string" where
  \<comment> \<open>Modelled from the spec: \<open>parser.getText\<close>, the accumulated text of a node: its
      texts joined by blanks and whitespace-normalised; empty when the node has no text.\<close>
  "getText node = innerTrim (strip (join '' '' (itertext node)))"

definition append_text :: "string option \<Rightarrow> string option \<Rightarrow> string option" where
  \<comment> \<open>text \<open>b\<close> put after text \<open>a\<close>\<close>
  "append_text a b = (case b of None \<Rightarrow> a | Some t \<Rightarrow> Some (or_empty a @ t))"

definition push_text :: "string option \<Rightarrow> string option \<times> element list \<Rightarrow> string option \<times> element list" where
  \<comment> \<open>text put after the content built so far (a parent's text and its first children):
      after the last child as its tail, or onto the parent's text when there is no child\<close>
  "push_text s acc =
     (case acc of (x, kids) \<Rightarrow>
        if kids = [] then (append_text x s, [])
        else (x, butlast kids @ [set_tail (append_text (tail (last kids)) s) (last kids)]))"

definition splice_step :: "string set \<Rightarrow> string option \<times> element list \<Rightarrow> element \<Rightarrow> string option \<times> element list" where
  \<comment> \<open>one child put after the content built so far: as it is, or, when its tag is to
      be stripped, its text, its children and the text that follows it in its place\<close>
  "splice_step tags acc c =
     (if tag c \<in> tags
      then push_text (tail c)
             (case push_text (node_text c) acc of (x, kids) \<Rightarrow> (x, kids @ children c))
      else (fst acc, snd acc @ [c]))"

fun stripTags :: "string set \<Rightarrow> element \<Rightarrow> element" where
  \<comment> \<open>Modelled from the spec: \<open>parser.stripTags(node, *tags)\<close>, which unwraps every
      descendant with one of the tags: the element goes, its text and children are spliced
      into its parent at its former position, in document order.\<close>
  "stripTags tags (Element t a x y cs) =
     (case foldl (splice_step tags) (x, []) (map (stripTags tags) cs) of
        (x', cs') \<Rightarrow> Element t a x' y cs')"


section \<open>OutputFormatter: the cleanup passes\<close>

definition gravity_score :: "element \<Rightarrow> error + pyfloat" where
  \<comment> \<open>\<open>score = getAttribute(item, 'gravityScore'); score = float(score) if score else 0\<close>\<close>
  "gravity_score item =
     (let score = getAttribute item ''gravityScore''
      in if truthy score then py_float (the score) else Inr (Finite 0))"

definition item_removed :: "element \<Rightarrow> error + bool" where
  \<comment> \<open>the body of the loop of \<open>remove_negativescores_nodes\<close> for one element of the
      tree: whether it is detached. An element without the attribute is not among the
      selected items.\<close>
  "item_removed c =
     (if get_attr c ''gravityScore'' = None then Inr False
      else case gravity_score c of Inl e \<Rightarrow> Inl e | Inr score \<Rightarrow> Inr (below_one score))"

fun prune_items :: "element list \<Rightarrow> error + element list" where
  \<comment> \<open>The loop of \<open>remove_negativescores_nodes\<close> over the items below a list of
      siblings, in document order: an item, the items inside it, then the items after it.
      The items inside a detached item are still in the selected list, so their scores are
      still computed (and may raise); detaching them shows nowhere in the tree.\<close>
  "prune_items [] = Inr []"
| "prune_items (Element t a x y ks # cs) =
     (case item_removed (Element t a x y ks) of Inl e \<Rightarrow> Inl e
      | Inr removed \<Rightarrow>
         (case prune_items ks of Inl e \<Rightarrow> Inl e
          | Inr ks' \<Rightarrow>
             (case prune_items cs of Inl e \<Rightarrow> Inl e
              | Inr cs' \<Rightarrow> Inr (if removed then cs' else Element t a x y ks' # cs'))))"

definition remove_negativescores_nodes :: "element \<Rightarrow> error + element" where
  "remove_negativescores_nodes top_node =
     (case prune_items (children top_node) of Inl e \<Rightarrow> Inl e
      | Inr cs \<Rightarrow> Inr (set_children cs top_node))"

text \<open>
  Score pruning as the spec words it, for comparison with the loop: a descendant with a
  gravityScore attribute whose score is below 1 is detached with its subtree.
\<close>

definition low_item :: "element \<Rightarrow> bool" where
  "low_item c =
     (get_attr c ''gravityScore'' \<noteq> None \<and>
      (case gravity_score c of Inl e \<Rightarrow> False | Inr score \<Rightarrow> below_one score))"

fun detach_low :: "element \<Rightarrow> element" where
  "detach_low (Element t a x y cs) =
     Element t a x y (map detach_low (filter (\<lambda>c. \<not> low_item c) cs))"


definition links_to_text :: "element \<Rightarrow> element" where
  "links_to_text top_node = stripTags {''a''} top_node"

fun add_newline_to_br :: "element \<Rightarrow> element" where
  \<comment> \<open>every descendant with the tag \<open>br\<close> gets the marker as its text\<close>
  "add_newline_to_br (Element t a x y cs) =
     Element t a x y
       (map (\<lambda>c. if tag c = ''br'' then set_text (Some newline_marker) (add_newline_to_br c)
                 else add_newline_to_br c) cs)"

definition flatten_li :: "element \<Rightarrow> element" where
  \<comment> \<open>the body of the inner loop of \<open>add_newline_to_li\<close>: the text is set, then every
      child is removed\<close>
  "flatten_li li = set_children [] (set_text (Some (getText li @ newline_marker)) li)"

fun flatten_first :: "nat \<Rightarrow> element list \<Rightarrow> element list" where
  \<comment> \<open>The inner loop over the first \<open>k\<close> entries of \<open>li_list\<close>, for the part of the list
      below these siblings. An item inside an item that has been flattened is detached
      with it: it is still an entry of the list, but what is done to it shows nowhere.\<close>
  "flatten_first k [] = []"
| "flatten_first k (Element t a x y ks # cs) =
     (if k = 0 then Element t a x y ks # cs
      else if t = ''li''
      then flatten_li (Element t a x y ks) #
           flatten_first (k - 1 - length (getElementsByTag (Element t a x y ks) ''li'')) cs
      else Element t a x y (flatten_first k ks) #
           flatten_first (k - length (getElementsByTag (Element t a x y ks) ''li'')) cs)"

definition normalize_ul :: "element \<Rightarrow> element" where
  \<comment> \<open>the body of the outer loop for one list container \<open>e\<close>:
      \<open>li_list = getElementsByTag(e, tag='li')\<close>, then the inner loop over \<open>li_list[:-1]\<close>\<close>
  "normalize_ul e =
     (let li_list = getElementsByTag e ''li''
      in set_children (flatten_first (length li_list - 1) (children e)) e)"


function li_below :: "element list \<Rightarrow> element list" where
  \<comment> \<open>The outer loop of \<open>add_newline_to_li\<close> over the list containers below a list of
      siblings, in document order: a container is normalised, then the containers that
      are still inside it, then the ones after it. A container inside a flattened item is
      detached with it, and what the loop does to it shows nowhere in the tree.\<close>
  "li_below [] = []"
| "li_below (c # cs) =
     (let c1 = (if tag c = ''ul'' then normalize_ul c else c)
      in set_children (li_below (children c1)) c1 # li_below cs)"
  by pat_completeness auto
termination
proof (relation "measure (size_list size)")
  show "wf (measure (size_list size))" by simp
next
  fix c :: element and cs c1
  assume c1: "c1 = (if tag c = ''ul'' then normalize_ul c else c)"
  have fl: "size_list size (flatten_first k es) \<le> size_list size es" for k es
    by (induction k es rule: flatten_first.induct)
      (auto simp: flatten_li_def set_children_def set_text_def)
  have "size_list size (children e) < size e" for e :: element
    by (cases e) simp
  moreover have "size_list size (children (normalize_ul c)) \<le> size_list size (children c)"
    using fl by (simp add: normalize_ul_def set_children_def Let_def)
  ultimately have "size_list size (children c1) < size c"
    using c1 by (auto simp: le_less_trans)
  then show "(children c1, c # cs) \<in> measure (size_list size)" by simp
next
  fix c :: element and cs c1
  show "(cs, c # cs) \<in> measure (size_list size)" by simp
qed

definition add_newline_to_li :: "element \<Rightarrow> element" where
  "add_newline_to_li top_node = set_children (li_below (children top_node)) top_node"

definition replace_with_text :: "element \<Rightarrow> element" where
  "replace_with_text top_node = stripTags {''b'', ''strong'', ''i'', ''br'', ''sup''} top_node"

definition carriage_return_marker :: string where
  \<comment> \<open>\<open>'\\r'\<close>: a backslash and the letter r\<close>
  "carriage_return_marker = [CHR 0x5C, CHR ''r'']"

definition is_empty_tag :: "element \<Rightarrow> bool" where
  \<comment> \<open>the condition of \<open>remove_empty_tags\<close> for one element\<close>
  "is_empty_tag el =
     (let tag = getTag el; text = getText el
      in (tag \<noteq> ''br'' \<or> text \<noteq> carriage_return_marker) \<and> text = [] \<and>
         length (getElementsByTag el ''object'') = 0 \<and>
         length (getElementsByTag el ''embed'') = 0)"

fun empty_below :: "element \<Rightarrow> element" where
  \<comment> \<open>The loop of \<open>remove_empty_tags\<close> over the descendants of a node in reverse
      document order: the elements below a child come before the child itself, so a child
      is tested after the removals inside it.\<close>
  "empty_below (Element t a x y cs) =
     Element t a x y (rev (filter (\<lambda>c. \<not> is_empty_tag c) (map empty_below (rev cs))))"

definition remove_empty_tags :: "element \<Rightarrow> element" where
  "remove_empty_tags top_node = empty_below top_node"

fun get_depth :: "element \<Rightarrow> nat \<Rightarrow> nat" where
  "get_depth (Element t a x y cs) depth =
     (if cs = [] then depth
      else foldl (\<lambda>max_depth e_depth. if e_depth > max_depth then e_depth else max_depth) 0
             (map (\<lambda>c. get_depth c (depth + 1)) cs))"

definition remove_trailing_media_div :: "element \<Rightarrow> element" where
  "remove_trailing_media_div top_node =
     (let top_level_nodes = getChildren top_node
      in if length top_level_nodes < 3 then top_node
         else let last_node = last top_level_nodes
              in if get_depth last_node 1 \<ge> 2 then set_children (butlast top_level_nodes) top_node
                 else top_node)"

fun spec_depth :: "element \<Rightarrow> nat" where
  \<comment> \<open>the nesting depth as the spec words it: a leaf has depth 1, another element one
      more than the deepest of its children\<close>
  "spec_depth (Element t a x y cs) = 1 + fold max (map spec_depth cs) 0"


section \<open>OutputFormatter: get_formatted\<close>

definition cleanup_pipeline :: "element \<Rightarrow> error + element" where
  \<comment> \<open>the passes of \<open>get_formatted\<close> that change the tree, in its order\<close>
  "cleanup_pipeline top_node =
     (case remove_negativescores_nodes top_node of Inl e \<Rightarrow> Inl e
      | Inr pruned \<Rightarrow>
          Inr (remove_trailing_media_div (remove_empty_tags (replace_with_text
                (add_newline_to_li (add_newline_to_br (links_to_text pruned)))))))"

definition get_formatted ::
  "(element \<Rightarrow> string) \<Rightarrow> (string \<Rightarrow> string) \<Rightarrow> bool \<Rightarrow> element option \<Rightarrow> string option \<Rightarrow>
     error + (string \<times> string)" where
  \<comment> \<open>\<open>convert_to_html\<close> (the parser's \<open>clean_article_html\<close> and \<open>nodeToString\<close>, not
      among the sources) is the parameter \<open>convert_to_html\<close>; it reads the tree after the
      score pruning. With \<open>None\<close> as the top node, whatever the passes do with it,
      \<open>convert_to_text\<close> iterates over it, which raises \<open>TypeError\<close>.\<close>
  "get_formatted convert_to_html charrefs keep_article_html top_node title =
     (case top_node of None \<Rightarrow> Inl TypeError
      | Some node \<Rightarrow>
         (case remove_negativescores_nodes node of Inl e \<Rightarrow> Inl e
          | Inr pruned \<Rightarrow>
             let html = (if keep_article_html then convert_to_html pruned else []);
                 cleaned = remove_trailing_media_div (remove_empty_tags (replace_with_text
                   (add_newline_to_li (add_newline_to_br (links_to_text pruned)))));
                 text = convert_to_text charrefs cleaned title
             in Inr (text, html)))"


section \<open>Notions for the statements and proofs\<close>

text \<open>
  The list items below a list of siblings, the tags and attributes of the elements below
  a node (no pass adds an element, so these only shrink), and properties of all the
  elements below a node.
\<close>

definition lis :: "element list \<Rightarrow> element list" where
  "lis cs = filter (\<lambda>e. tag e = ''li'') (concat (map iter cs))"

definition key :: "element \<Rightarrow> string \<times> (string \<times> string) list" where
  "key e = (tag e, attrib e)"

definition keysL :: "element list \<Rightarrow> (string \<times> (string \<times> string) list) set" where
  "keysL cs = key ` set (concat (map iter cs))"

definition keys :: "element \<Rightarrow> (string \<times> (string \<times> string) list) set" where
  "keys n = keysL (children n)"

definition tag_free :: "string set \<Rightarrow> element \<Rightarrow> bool" where
  "tag_free T n = (\<forall>k \<in> keys n. fst k \<notin> T)"

definition tag_freeL :: "string set \<Rightarrow> element list \<Rightarrow> bool" where
  "tag_freeL T cs = (\<forall>k \<in> keysL cs. fst k \<notin> T)"

definition all_desc :: "(element \<Rightarrow> bool) \<Rightarrow> element \<Rightarrow> bool" where
  "all_desc P n = (\<forall>d \<in> set (descendants n). P d)"

definition score_fine :: "element \<Rightarrow> bool" where
  "score_fine d = (gravity_score d \<noteq> Inl ValueError \<and> \<not> low_item d)"

definition short_lists :: "element list \<Rightarrow> bool" where
  "short_lists cs = (\<forall>u \<in> set (concat (map iter cs)). tag u = ''ul'' \<longrightarrow> length (getElementsByTag u ''li'') \<le> 1)"

definition later_passes :: "element \<Rightarrow> element" where
  "later_passes pruned =
     remove_trailing_media_div (remove_empty_tags (replace_with_text
       (add_newline_to_li (add_newline_to_br (links_to_text pruned)))))"


definition flattened :: "element \<Rightarrow> bool" where
  "flattened li = (\<exists>orig. li = flatten_li orig)"

definition all_but_last :: "element list \<Rightarrow> bool" where
  "all_but_last xs = (\<forall>x \<in> set (butlast xs). flattened x)"

definition stays_flat :: "element \<Rightarrow> element \<Rightarrow> bool" where
  "stays_flat a b = (flattened a \<longrightarrow> flattened b)"

definition lists_normalized :: "element list \<Rightarrow> bool" where
  "lists_normalized cs =
     (\<forall>u \<in> set (concat (map iter cs)). tag u = ''ul'' \<longrightarrow> all_but_last (lis (children u)))"


section \<open>Example trees\<close>

definition prevnext_div :: element where
  "prevnext_div = Element ''div'' [] (Some ''prevnext'') None []"

definition marked_paragraph :: element where
  "marked_paragraph =
     Element ''p'' [] (Some (''A '' @ newline_marker @ '' '' @ newline_marker @ '' B'')) None []"

definition kicker_top :: element where
  "kicker_top =
     Element ''div'' [] None None
       [Element ''p'' [] (Some ''Breaking'') None [],
        Element ''p'' [] (Some ''Breaking news today'') None []]"

definition blank_first_top :: element where
  "blank_first_top =
     Element ''div'' [] None None
       [Element ''p'' [] (Some (newline_marker @ '' '' @ newline_marker @ ''B'')) None []]"

definition caption_figure :: element where
  "caption_figure = Element ''figure'' [] (Some ''caption'') None []"

definition empty_paragraph :: element where
  "empty_paragraph = Element ''p'' [] None None []"


definition scored_top :: element where
  "scored_top =
     Element ''div'' [] None None
       [Element ''p'' [] (Some ''a'') None [],
        Element ''p'' [(''gravityScore'', ''0.4'')] (Some ''x'') None [],
        Element ''p'' [(''gravityScore'', ''2.5'')] (Some ''y'') None [],
        Element ''p'' [(''gravityScore'', [])] (Some ''z'') None []]"

definition scored_top_pruned :: element where
  "scored_top_pruned =
     Element ''div'' [] None None
       [Element ''p'' [] (Some ''a'') None [],
        Element ''p'' [(''gravityScore'', ''2.5'')] (Some ''y'') None []]"

definition malformed_score_top :: element where
  "malformed_score_top =
     Element ''div'' [] None None
       [Element ''p'' [] (Some ''Some words here'') None [],
        Element ''p'' [(''gravityScore'', ''abc'')] (Some ''x'') None []]"

definition empty_top :: element where
  "empty_top = Element ''div'' [] None None []"

definition deep_last_top :: element where
  "deep_last_top =
     Element ''div'' [] None None
       [Element ''p'' [] (Some ''a'') None [],
        Element ''p'' [] (Some ''b'') None [],
        Element ''p'' [] (Some ''c'') None [],
        Element ''div'' [] None None
          [Element ''div'' [] None None [Element ''a'' [] (Some ''related'') None []]]]"

definition two_children_top :: element where
  "two_children_top =
     Element ''div'' [] None None
       [Element ''p'' [] (Some ''a'') None [],
        Element ''div'' [] None None
          [Element ''div'' [] None None [Element ''a'' [] (Some ''related'') None []]]]"

definition list_item :: "string \<Rightarrow> element" where
  "list_item s = Element ''li'' [] (Some s) None []"

definition abc_list :: element where
  "abc_list = Element ''ul'' [] None None [list_item ''A'', list_item ''B'', list_item ''C'']"

definition abc_list_cleaned :: element where
  "abc_list_cleaned =
     Element ''ul'' [] None None
       [list_item (''A'' @ newline_marker), list_item (''B'' @ newline_marker), list_item ''C'']"

definition abc_list_top :: element where
  "abc_list_top = Element ''div'' [] None None [abc_list]"

definition intro_list_top :: element where
  "intro_list_top =
     Element ''div'' [] None None [Element ''p'' [] (Some ''Three letters follow'') None [], abc_list]"

definition ab_list_top :: element where
  "ab_list_top =
     Element ''div'' [] None None
       [Element ''ul'' [] None None [list_item ''A'', list_item ''B'']]"

definition ab_list_once :: element where
  "ab_list_once =
     Element ''div'' [] None None
       [Element ''ul'' [] None None [list_item (''A'' @ newline_marker), list_item ''B'']]"

definition ab_list_twice :: element where
  "ab_list_twice =
     Element ''div'' [] None None
       [Element ''ul'' [] None None
          [list_item (''A'' @ newline_marker @ newline_marker), list_item ''B'']]"

definition article_top :: element where
  "article_top =
     Element ''div'' [] None None
       [Element ''p'' [] (Some ''Hello '') None [Element ''a'' [(''href'', ''x'')] (Some ''link'') (Some '' world'') []],
        Element ''p'' [] (Some ''line1'') None [Element ''br'' [] None (Some ''line2'') []],
        Element ''span'' [] None None [],
        Element ''p'' [(''gravityScore'', ''0.4'')] (Some ''junk'') None []]"

definition article_cleaned :: element where
  "article_cleaned =
     Element ''div'' [] None None
       [Element ''p'' [] (Some ''Hello link world'') None [],
        Element ''p'' [] (Some (''line1'' @ newline_marker @ ''line2'')) None []]"


section \<open>Splitting and joining\<close>

lemma first_match_filter_methods:
  "first_match filter_methods parent node =
     (is_tag_excluded parent node \<or> has_ads parent node \<or>
      looks_like_object_description parent node \<or> looks_like_page_navigation parent node \<or>
      has_ignored_class parent node \<or> ignored_by_content parent node)"
  by (simp add: filter_methods_def)

lemma page_navigation_cases:
  "looks_like_page_navigation parent node =
     (spec_page_navigation parent node \<or> strip (or_empty (node_text node)) = ''prevnext'' \<or>
      (tag node = ''p'' \<and> get_attr node ''id'' = Some navigation_phrase))"
  by (auto simp: looks_like_page_navigation_def spec_page_navigation_def PAGE_NAVIGATION_def
      split: option.splits)

lemma is_excluded_iff:
  "is_excluded parent node =
     (spec_is_excluded parent node \<or> strip (or_empty (node_text node)) = ''prevnext'' \<or>
      (tag node = ''p'' \<and> get_attr node ''id'' = Some navigation_phrase))"
  unfolding is_excluded_def first_match_filter_methods spec_is_excluded_def page_navigation_cases
  by blast

lemma split_on_parts:
  "sep \<noteq> [] \<Longrightarrow> (\<And>i. i < length cur \<Longrightarrow> \<not> prefix sep (drop i (cur @ s))) \<Longrightarrow>
   p \<in> set (split_on sep cur s) \<Longrightarrow> \<not> sublist sep p"
proof (induction sep cur s arbitrary: p rule: split_on.induct)
  case (1 sep cur s)
  have cur_ok: "\<not> sublist sep cur"
  proof
    assume "sublist sep cur"
    then obtain ps ss where c: "cur = ps @ sep @ ss" by (auto simp: sublist_def)
    with \<open>sep \<noteq> []\<close> have "length ps < length cur" by (cases sep) auto
    moreover have "prefix sep (drop (length ps) (cur @ s))" using c by simp
    ultimately show False using "1.prems"(2) by blast
  qed
  show ?case
  proof (cases "s = []")
    case True
    with "1.prems"(3) cur_ok show ?thesis by (simp add: split_on.simps[of sep cur "[]"])
  next
    case False
    show ?thesis
    proof (cases "prefix sep s")
      case True
      with False "1.prems" have "p = cur \<or> p \<in> set (split_on sep [] (drop (length sep) s))"
        by (simp add: split_on.simps[of sep cur s])
      then show ?thesis
      proof
        assume "p = cur" with cur_ok show ?thesis by simp
      next
        assume "p \<in> set (split_on sep [] (drop (length sep) s))"
        with "1.IH"(1)[OF False _ \<open>sep \<noteq> []\<close>] True \<open>sep \<noteq> []\<close> show ?thesis by simp
      qed
    next
      case np: False
      with False "1.prems" have mem: "p \<in> set (split_on sep (cur @ [hd s]) (tl s))"
        by (simp add: split_on.simps[of sep cur s])
      have inv: "\<not> prefix sep (drop i ((cur @ [hd s]) @ tl s))" if "i < length (cur @ [hd s])" for i
      proof (cases "i < length cur")
        case True
        with "1.prems"(2) False show ?thesis by simp
      next
        case False
        with that have "i = length cur" by simp
        with np \<open>s \<noteq> []\<close> show ?thesis by simp
      qed
      from "1.IH"(2)[OF \<open>s \<noteq> []\<close> _ \<open>sep \<noteq> []\<close> inv mem] np \<open>sep \<noteq> []\<close> show ?thesis by simp
    qed
  qed
qed

lemma app_eq_cases:
  assumes "a @ b = c @ d"
  obtains us where "a = c @ us" "us @ b = d" | us where "a @ us = c" "b = us @ d" "us \<noteq> []"
proof -
  from assms consider us where "a = c @ us" "us @ b = d" | us where "a @ us = c" "b = us @ d"
    unfolding append_eq_append_conv2 by blast
  then show thesis
  proof cases
    case 1 then show ?thesis using that(1) by blast
  next
    case 2
    show ?thesis
    proof (cases "us = []")
      case True
      with 2 have "a = c @ []" "[] @ b = d" by simp_all
      then show ?thesis using that(1) by blast
    next
      case False
      with 2 show ?thesis using that(2) by blast
    qed
  qed
qed

lemma text_parts_no_marker:
  assumes "p \<in> set (text_parts title te)"
  shows "\<not> sublist newline_marker p"
proof -
  from assms have "p \<in> set (split_on newline_marker [] te)"
    by (simp add: text_parts_def)
  moreover have "newline_marker \<noteq> []" by (simp add: newline_marker_def)
  ultimately show ?thesis using split_on_parts[of newline_marker "[]" te p] by simp
qed

lemma extract_text_no_marker:
  assumes "f \<in> set (extract_text charrefs parent node title)"
  shows "\<not> sublist newline_marker f"
proof -
  from assms obtain te where "f \<in> set (text_parts title te)"
    by (auto simp: extract_text_def Let_def split: if_splits)
  then show ?thesis by (rule text_parts_no_marker)
qed

lemma sublist_append_char:
  assumes "\<not> sublist m a" "\<not> sublist m b" "c \<notin> set m"
  shows "\<not> sublist m (a @ c # b)"
proof
  assume "sublist m (a @ c # b)"
  then obtain ps ss where e: "a @ c # b = ps @ m @ ss" by (auto simp: sublist_def)
  then show False
  proof (cases rule: app_eq_cases)
    case (1 us)
    from 1(2) show False
    proof (cases rule: app_eq_cases)
      case (1 vs)
      with \<open>a = ps @ us\<close> assms(1) show False by (auto simp: sublist_def)
    next
      case (2 vs)
      then have "c \<in> set m" by (cases vs) auto
      with assms(3) show False by simp
    qed
  next
    case (2 us)
    then obtain us' where "us = c # us'" "b = us' @ m @ ss" by (cases us) auto
    with assms(2) show False by (auto simp: sublist_def)
  qed
qed

lemma join_no_marker:
  "(\<And>p. p \<in> set ps \<Longrightarrow> \<not> sublist newline_marker p) \<Longrightarrow>
   \<not> sublist newline_marker (join blank_line ps)"
proof (induction blank_line ps rule: join.induct)
  case 1
  then show ?case by (simp add: newline_marker_def)
next
  case (2 x)
  then show ?case by simp
next
  case (3 x y ys)
  have r: "\<not> sublist newline_marker (join blank_line (y # ys))" using 3 by simp
  have e: "\<not> sublist newline_marker []" by (simp add: newline_marker_def)
  have c: "CHR 0x0A \<notin> set newline_marker" by (simp add: newline_marker_def)
  have i: "\<not> sublist newline_marker ([] @ CHR 0x0A # join blank_line (y # ys))"
    by (rule sublist_append_char[OF e r c])
  have x: "\<not> sublist newline_marker x" using 3(2) by simp
  have "\<not> sublist newline_marker (x @ CHR 0x0A # ([] @ CHR 0x0A # join blank_line (y # ys)))"
    by (rule sublist_append_char[OF x i c])
  then show ?case by (simp add: blank_line_def)
qed

lemma flattened_elements_no_marker:
  "p \<in> set (flattened_elements charrefs top_node title) \<Longrightarrow> \<not> sublist newline_marker p"
  using extract_text_no_marker by (auto simp: flattened_elements_def)

lemma convert_to_text_cases:
  "convert_to_text charrefs top_node title =
     join blank_line
       (case flattened_elements charrefs top_node title of [] \<Rightarrow> []
        | f # rest \<Rightarrow> if f \<noteq> [] \<and> length (py_split f) \<noteq> 1 then f # rest else rest)"
  by (simp add: convert_to_text_def Let_def truthy_def split: list.splits)

lemma convert_to_text_no_marker:
  "\<not> sublist newline_marker (convert_to_text charrefs top_node title)"
proof -
  define fl where "fl = flattened_elements charrefs top_node title"
  define kept where "kept = (case fl of [] \<Rightarrow> []
        | f # rest \<Rightarrow> if f \<noteq> [] \<and> length (py_split f) \<noteq> 1 then f # rest else rest)"
  have "set kept \<subseteq> set fl" by (auto simp: kept_def split: list.splits)
  then have "\<not> sublist newline_marker p" if "p \<in> set kept" for p
    using that flattened_elements_no_marker[of p charrefs top_node title] by (auto simp: fl_def)
  then have "\<not> sublist newline_marker (join blank_line kept)" by (rule join_no_marker)
  then show ?thesis by (simp add: convert_to_text_cases kept_def fl_def)
qed

lemma text_parts_nonempty: "[] \<notin> set (text_parts title te)"
  by (simp add: text_parts_def)

lemma flattened_elements_nonempty: "[] \<notin> set (flattened_elements charrefs top_node title)"
  by (auto simp: flattened_elements_def extract_text_def Let_def text_parts_nonempty)

lemma convert_to_text_first:
  "convert_to_text charrefs top_node title =
     (case flattened_elements charrefs top_node title of [] \<Rightarrow> []
      | f # rest \<Rightarrow> if length (py_split f) = 1 then join blank_line rest
                     else join blank_line (f # rest))"
  using flattened_elements_nonempty[of charrefs top_node title]
  by (auto simp: convert_to_text_cases split: list.splits)

lemma extract_text_excluded:
  "is_excluded parent node \<Longrightarrow> extract_text charrefs parent node title = []"
  by (simp add: extract_text_def)

lemma extract_text_no_text:
  "\<forall>(p, c) \<in> set (iter_parent parent node). \<not> truthy (node_text c) \<Longrightarrow>
   extract_text charrefs parent node title = []"
  by (auto simp: extract_text_def Let_def filter_empty_conv)

lemma extract_text_leaf:
  "\<not> is_excluded parent (Element t a (Some s) y []) \<Longrightarrow> s \<noteq> [] \<Longrightarrow>
   extract_text charrefs parent (Element t a (Some s) y []) title =
     filter (\<lambda>part. \<not> (truthy title \<and> Some part = title))
       (filter (\<lambda>part. part \<noteq> []) (split_on newline_marker [] (innerTrim (unescape charrefs s))))"
  by (simp add: extract_text_def Let_def truthy_def text_parts_def)


section \<open>The cleanup passes\<close>

lemma py_float_error: "py_float s = Inl e \<Longrightarrow> e = ValueError"
  by (auto simp: py_float_def Let_def split: prod.splits if_splits option.splits)

lemma gravity_score_error: "gravity_score c = Inl e \<Longrightarrow> e = ValueError"
  by (auto simp: gravity_score_def Let_def dest: py_float_error split: if_splits)

lemma gravity_score_no_attr: "get_attr c ''gravityScore'' = None \<Longrightarrow> gravity_score c = Inr (Finite 0)"
  by (simp add: gravity_score_def getAttribute_def truthy_def)

lemma gravity_score_empty: "get_attr c ''gravityScore'' = Some [] \<Longrightarrow> gravity_score c = Inr (Finite 0)"
  by (simp add: gravity_score_def getAttribute_def truthy_def)

lemma gravity_score_value:
  "get_attr c ''gravityScore'' = Some s \<Longrightarrow> s \<noteq> [] \<Longrightarrow> gravity_score c = py_float s"
  by (simp add: gravity_score_def getAttribute_def truthy_def)

lemma item_removed_cases:
  "item_removed c =
     (if gravity_score c = Inl ValueError then Inl ValueError else Inr (low_item c))"
  using gravity_score_error[of c] gravity_score_no_attr[of c]
  by (auto simp: item_removed_def low_item_def split: sum.splits)

lemma prune_items_eq:
  "prune_items cs =
     (if \<exists>item \<in> set (concat (map iter cs)). gravity_score item = Inl ValueError
      then Inl ValueError
      else Inr (map detach_low (filter (\<lambda>c. \<not> low_item c) cs)))"
proof (induction cs rule: prune_items.induct)
  case 1
  then show ?case by simp
next
  case (2 t a x y ks cs)
  let ?c = "Element t a x y ks"
  show ?case
  proof (cases "gravity_score ?c = Inl ValueError")
    case True
    then show ?thesis by (simp add: item_removed_cases)
  next
    case nf: False
    then have ir: "item_removed ?c = Inr (low_item ?c)" by (simp add: item_removed_cases)
    show ?thesis
    proof (cases "\<exists>item \<in> set (concat (map iter ks)). gravity_score item = Inl ValueError")
      case True
      with ir "2.IH"(1) show ?thesis by auto
    next
      case kf: False
      with ir "2.IH"(1) have pk: "prune_items ks = Inr (map detach_low (filter (\<lambda>c. \<not> low_item c) ks))"
        by simp
      show ?thesis
      proof (cases "\<exists>item \<in> set (concat (map iter cs)). gravity_score item = Inl ValueError")
        case True
        with ir pk "2.IH"(2) show ?thesis by auto
      next
        case cf: False
        with ir pk "2.IH"(2) have "prune_items cs = Inr (map detach_low (filter (\<lambda>c. \<not> low_item c) cs))"
          by simp
        with ir pk nf kf cf show ?thesis by auto
      qed
    qed
  qed
qed

lemma css_select_gravity_fails:
  "(\<exists>item \<in> set (css_select_gravity n). gravity_score item = Inl ValueError) =
   (\<exists>item \<in> set (descendants n). gravity_score item = Inl ValueError)"
proof -
  have "get_attr item ''gravityScore'' \<noteq> None" if "gravity_score item = Inl ValueError" for item
    using that gravity_score_no_attr[of item] by auto
  then show ?thesis by (auto simp: css_select_gravity_def)
qed

lemma remove_negativescores_nodes_eq:
  "remove_negativescores_nodes top_node =
     (if \<exists>item \<in> set (css_select_gravity top_node). gravity_score item = Inl ValueError
      then Inl ValueError else Inr (detach_low top_node))"
  unfolding css_select_gravity_fails
  by (cases top_node) (simp add: remove_negativescores_nodes_def prune_items_eq descendants_def set_children_def)

lemma below_one_zero: "below_one (Finite 0)"
  by (simp add: below_one_def)

lemma foldl_if_max:
  "foldl (\<lambda>max_depth e_depth. if e_depth > max_depth then e_depth else max_depth) m xs =
   fold max xs (m::nat)"
  by (induction xs arbitrary: m) (auto simp: max_def)

lemma fold_max_add_from:
  "fold max (map (\<lambda>c. d + f c) xs) (d + m) = d + fold max (map f xs) (m::nat)"
  by (induction xs arbitrary: m) (auto simp: max_def)

lemma fold_max_add:
  assumes "xs \<noteq> []"
  shows "fold max (map (\<lambda>c. d + f c) xs) (0::nat) = d + fold max (map f xs) 0"
proof -
  from assms obtain x xs' where xs: "xs = x # xs'" by (cases xs) auto
  show ?thesis using fold_max_add_from[of d f xs' "f x"] by (simp add: xs)
qed

lemma spec_depth_pos: "1 \<le> spec_depth c"
  by (cases c) simp

lemma fold_max_ge: "(m::nat) \<le> fold max xs m"
  by (induction xs arbitrary: m) (auto intro: le_trans[OF max.cobounded2])

lemma get_depth_spec: "get_depth n d = d + spec_depth n - 1"
proof (induction n arbitrary: d)
  case (Element t a x y cs)
  show ?case
  proof (cases "cs = []")
    case True
    then show ?thesis by simp
  next
    case False
    have "get_depth c (Suc d) = d + spec_depth c" if "c \<in> set cs" for c
      using Element[OF that, of "Suc d"] spec_depth_pos[of c] by simp
    then have meq: "map (\<lambda>c. get_depth c (Suc d)) cs = map (\<lambda>c. d + spec_depth c) cs"
      by simp
    have "fold max (map (\<lambda>c. get_depth c (Suc d)) cs) 0 = d + fold max (map spec_depth cs) 0"
      unfolding meq by (rule fold_max_add[OF False])
    then show ?thesis using False
      by (simp add: foldl_if_max)
  qed
qed

lemma spec_depth_leaf: "(2 \<le> spec_depth n) = (children n \<noteq> [])"
proof (cases n)
  case (Element t a x y cs)
  have "1 \<le> fold max (map spec_depth cs) 0" if "cs \<noteq> []"
  proof -
    from that obtain c cs' where cs: "cs = c # cs'" by (cases cs) auto
    have "1 \<le> spec_depth c" by (rule spec_depth_pos)
    also have "\<dots> \<le> fold max (map spec_depth cs') (spec_depth c)" by (rule fold_max_ge)
    finally show ?thesis by (simp add: cs)
  qed
  then show ?thesis using Element by auto
qed

lemma remove_trailing_media_div_eq:
  "remove_trailing_media_div top_node =
     (if length (children top_node) < 3 then top_node
      else if 2 \<le> spec_depth (last (children top_node))
      then set_children (butlast (children top_node)) top_node else top_node)"
  by (simp add: remove_trailing_media_div_def getChildren_def Let_def get_depth_spec)

lemma get_formatted_no_children:
  "children top_node = [] \<Longrightarrow>
   get_formatted convert_to_html charrefs keep (Some top_node) title =
     Inr ([], if keep then convert_to_html top_node else [])"
  by (cases top_node)
    (simp add: get_formatted_def remove_negativescores_nodes_def set_children_def links_to_text_def
      add_newline_to_li_def replace_with_text_def remove_empty_tags_def
      remove_trailing_media_div_def getChildren_def convert_to_text_def flattened_elements_def
      truthy_def)


section \<open>What the passes keep\<close>

lemma getElementsByTag_lis: "getElementsByTag e ''li'' = lis (children e)"
  by (simp add: getElementsByTag_def descendants_def lis_def)

lemma lis_Nil [simp]: "lis [] = []"
  by (simp add: lis_def)

lemma lis_Cons:
  "lis (Element t a x y ks # cs) =
     (if t = ''li'' then [Element t a x y ks] else []) @ lis ks @ lis cs"
  by (simp add: lis_def)

lemma flatten_li_simps [simp]:
  "tag (flatten_li e) = tag e" "children (flatten_li e) = []"
  "node_text (flatten_li e) = Some (getText e @ newline_marker)"
  "attrib (flatten_li e) = attrib e" "tail (flatten_li e) = tail e"
  by (simp_all add: flatten_li_def set_children_def set_text_def)

lemma lis_flatten_li:
  "tag e = ''li'' \<Longrightarrow> lis (flatten_li e # cs) = flatten_li e # lis cs"
  by (cases "flatten_li e") (use flatten_li_simps(1,2)[of e] in \<open>auto simp: lis_Cons\<close>)

lemma flatten_first_lis:
  "\<exists>F R. lis (flatten_first k cs) = F @ R \<and>
     (\<forall>f \<in> set F. \<exists>orig \<in> set (lis cs). f = flatten_li orig) \<and>
     suffix R (drop k (lis cs))"
proof (induction k cs rule: flatten_first.induct)
  case (1 k)
  then show ?case by simp
next
  case (2 k t a x y ks cs)
  let ?c = "Element t a x y ks"
  let ?n = "length (getElementsByTag ?c ''li'')"
  have n: "?n = length (lis ks)" by (simp add: getElementsByTag_lis)
  show ?case
  proof (cases "k = 0")
    case True
    then show ?thesis by (intro exI[of _ "[]"] exI[of _ "lis (?c # cs)"]) simp
  next
    case k: False
    show ?thesis
    proof (cases "t = ''li''")
      case li: True
      from "2.IH"(1)[OF k li] obtain F R where
        fr: "lis (flatten_first (k - 1 - ?n) cs) = F @ R"
        and f: "\<forall>f \<in> set F. \<exists>orig \<in> set (lis cs). f = flatten_li orig"
        and r: "suffix R (drop (k - 1 - ?n) (lis cs))" by blast
      have "suffix (drop (k - 1 - ?n) (lis cs)) (drop (k - 1) (lis ks @ lis cs))"
      proof (cases "k - 1 \<ge> ?n")
        case True
        then show ?thesis by (simp add: n)
      next
        case False
        then have "k - 1 - ?n = 0" by simp
        moreover have "suffix (lis cs) (drop (k - 1) (lis ks @ lis cs))"
          using False by (simp add: n suffix_def) 
        ultimately show ?thesis by simp
      qed
      with r have r': "suffix R (drop k (lis (?c # cs)))"
        using k li by (cases k) (auto simp: lis_Cons intro: suffix_order.trans)
      have "lis (flatten_first k (?c # cs)) = (flatten_li ?c # F) @ R"
        using k li fr by (simp add: lis_flatten_li)
      moreover have "\<forall>f \<in> set (flatten_li ?c # F). \<exists>orig \<in> set (lis (?c # cs)). f = flatten_li orig"
        using f li by (auto simp: lis_Cons)
      ultimately show ?thesis using r' by blast
    next
      case nli: False
      from "2.IH"(2)[OF k nli] obtain F1 R1 where
        fr1: "lis (flatten_first k ks) = F1 @ R1"
        and f1: "\<forall>f \<in> set F1. \<exists>orig \<in> set (lis ks). f = flatten_li orig"
        and r1: "suffix R1 (drop k (lis ks))" by blast
      have res: "lis (flatten_first k (?c # cs)) =
          lis (flatten_first k ks) @ lis (flatten_first (k - ?n) cs)"
        using k nli by (simp add: lis_Cons)
      show ?thesis
      proof (cases "k \<ge> ?n")
        case True
        from "2.IH"(3)[OF k nli] obtain F2 R2 where
          fr2: "lis (flatten_first (k - ?n) cs) = F2 @ R2"
          and f2: "\<forall>f \<in> set F2. \<exists>orig \<in> set (lis cs). f = flatten_li orig"
          and r2: "suffix R2 (drop (k - ?n) (lis cs))" by blast
        from True r1 have "R1 = []" by (simp add: n)
        with res fr1 fr2 have "lis (flatten_first k (?c # cs)) = (F1 @ F2) @ R2" by simp
        moreover have "\<forall>f \<in> set (F1 @ F2). \<exists>orig \<in> set (lis (?c # cs)). f = flatten_li orig"
          using f1 f2 by (auto simp: lis_Cons)
        moreover have "suffix R2 (drop k (lis (?c # cs)))"
          using r2 True nli by (simp add: lis_Cons n)
        ultimately show ?thesis by blast
      next
        case False
        then have z: "k - ?n = 0" by simp
        have f0: "flatten_first 0 cs = cs"
          by (cases "(0::nat, cs)" rule: flatten_first.cases) auto
        from res fr1 z f0 have "lis (flatten_first k (?c # cs)) = F1 @ (R1 @ lis cs)" by simp
        moreover have "\<forall>f \<in> set F1. \<exists>orig \<in> set (lis (?c # cs)). f = flatten_li orig"
          using f1 by (auto simp: lis_Cons)
        moreover have "suffix (R1 @ lis cs) (drop k (lis (?c # cs)))"
          using r1 False nli by (auto simp: lis_Cons n suffix_def)
        ultimately show ?thesis by blast
      qed
    qed
  qed
qed

lemma normalize_ul_items:
  assumes "li \<in> set (butlast (getElementsByTag (normalize_ul e) ''li''))"
  shows "\<exists>orig \<in> set (getElementsByTag e ''li''). li = flatten_li orig"
proof -
  let ?k = "length (lis (children e)) - 1"
  obtain F R where fr: "lis (flatten_first ?k (children e)) = F @ R"
    and f: "\<forall>f \<in> set F. \<exists>orig \<in> set (lis (children e)). f = flatten_li orig"
    and r: "suffix R (drop ?k (lis (children e)))"
    using flatten_first_lis by blast
  from r have "length R \<le> length (drop ?k (lis (children e)))" by (rule suffix_length_le)
  then have "length R \<le> 1" by simp
  then have "set (butlast (F @ R)) \<subseteq> set F"
    by (cases R) (auto simp: butlast_append dest: in_set_butlastD)
  moreover have "getElementsByTag (normalize_ul e) ''li'' = F @ R"
    using fr by (simp add: getElementsByTag_lis normalize_ul_def Let_def set_children_def)
  ultimately show ?thesis using assms f by (auto simp: getElementsByTag_lis)
qed

lemma keys_descendants: "keys n = key ` set (descendants n)"
  by (simp add: keys_def keysL_def descendants_def)

lemma iter_Cons: "iter c = c # concat (map iter (children c))"
  by (cases c) simp

lemma keysL_simps [simp]:
  "keysL [] = {}"
  "keysL (c # cs) = insert (key c) (keysL (children c)) \<union> keysL cs"
  "keysL (as @ bs) = keysL as \<union> keysL bs"
  by (auto simp: keysL_def iter_Cons[of c])

lemma keysL_mono: "set as \<subseteq> set bs \<Longrightarrow> keysL as \<subseteq> keysL bs"
  by (auto simp: keysL_def)

lemma keysL_member: "c \<in> set cs \<Longrightarrow> insert (key c) (keysL (children c)) \<subseteq> keysL cs"
  by (induction cs) auto

lemma set_simps [simp]:
  "tag (set_tail s e) = tag e" "attrib (set_tail s e) = attrib e" "children (set_tail s e) = children e"
  "node_text (set_tail s e) = node_text e" "tail (set_tail s e) = s"
  "tag (set_text s e) = tag e" "attrib (set_text s e) = attrib e" "children (set_text s e) = children e"
  "node_text (set_text s e) = s" "tail (set_text s e) = tail e"
  "tag (set_children cs e) = tag e" "attrib (set_children cs e) = attrib e" "children (set_children cs e) = cs"
  "node_text (set_children cs e) = node_text e" "tail (set_children cs e) = tail e"
  by (simp_all add: set_tail_def set_text_def set_children_def)

lemma key_set [simp]:
  "key (set_tail s e) = key e" "key (set_text s e) = key e" "key (set_children cs e) = key e"
  by (simp_all add: key_def)

lemma keysL_butlast_last:
  assumes "kids \<noteq> []"
  shows "insert (key (last kids)) (keysL (butlast kids) \<union> keysL (children (last kids))) = keysL kids"
proof -
  have "keysL kids = keysL (butlast kids @ [last kids])" using assms by simp
  then show ?thesis unfolding keysL_simps by auto
qed

lemma keysL_push_text: "keysL (snd (push_text s acc)) = keysL (snd acc)"
  by (cases acc) (simp add: push_text_def keysL_butlast_last)

lemma keysL_splice_step:
  "keysL (snd (splice_step T acc c)) \<subseteq> keysL (snd acc) \<union> keysL [c]"
proof (cases "tag c \<in> T")
  case True
  obtain x kids where p: "push_text (node_text c) acc = (x, kids)" by (cases "push_text (node_text c) acc")
  have "keysL kids = keysL (snd acc)" using keysL_push_text[of "node_text c" acc] p by simp
  then show ?thesis using True p by (auto simp: splice_step_def keysL_push_text)
next
  case False
  then show ?thesis by (auto simp: splice_step_def)
qed

lemma keysL_foldl_splice:
  "keysL (snd (foldl (splice_step T) acc ks)) \<subseteq> keysL (snd acc) \<union> keysL ks"
proof (induction ks arbitrary: acc)
  case Nil
  then show ?case by simp
next
  case (Cons k ks)
  have "keysL (snd (foldl (splice_step T) (splice_step T acc k) ks))
      \<subseteq> keysL (snd (splice_step T acc k)) \<union> keysL ks" by (rule Cons.IH)
  also have "\<dots> \<subseteq> (keysL (snd acc) \<union> keysL [k]) \<union> keysL ks"
    using keysL_splice_step[of T acc k] by blast
  finally show ?case by auto
qed

lemma keysL_map_subset:
  "(\<And>c. c \<in> set cs \<Longrightarrow> key (f c) = key c \<and> keysL (children (f c)) \<subseteq> keysL (children c)) \<Longrightarrow>
   keysL (map f cs) \<subseteq> keysL cs"
  by (induction cs) auto

lemma keys_stripTags: "key (stripTags T n) = key n \<and> keys (stripTags T n) \<subseteq> keys n"
proof (induction n)
  case (Element t a x y cs)
  obtain x' cs' where f: "foldl (splice_step T) (x, []) (map (stripTags T) cs) = (x', cs')"
    by (cases "foldl (splice_step T) (x, []) (map (stripTags T) cs)")
  have "keysL cs' \<subseteq> keysL (map (stripTags T) cs)"
    using keysL_foldl_splice[of T "(x, [])" "map (stripTags T) cs"] f by simp
  also have "\<dots> \<subseteq> keysL cs"
    by (rule keysL_map_subset) (use Element in \<open>auto simp: keys_def\<close>)
  finally show ?case using f by (simp add: keys_def key_def)
qed

lemma tag_freeL_simps [simp]:
  "tag_freeL T []"
  "tag_freeL T (c # cs) = (tag c \<notin> T \<and> tag_freeL T (children c) \<and> tag_freeL T cs)"
  "tag_freeL T (as @ bs) = (tag_freeL T as \<and> tag_freeL T bs)"
  by (auto simp: tag_freeL_def key_def)

lemma tag_free_children: "tag_free T n = tag_freeL T (children n)"
  by (simp add: tag_free_def tag_freeL_def keys_def)

lemma tag_freeL_push_text: "tag_freeL T (snd (push_text s acc)) = tag_freeL T (snd acc)"
  by (simp add: tag_freeL_def keysL_push_text)

lemma tag_freeL_splice_step:
  assumes "tag_freeL T (snd acc)" "tag_freeL T (children c)"
  shows "tag_freeL T (snd (splice_step T acc c))"
proof (cases "tag c \<in> T")
  case True
  obtain x kids where p: "push_text (node_text c) acc = (x, kids)" by (cases "push_text (node_text c) acc")
  have "tag_freeL T kids" using tag_freeL_push_text[of T "node_text c" acc] p assms(1) by simp
  then show ?thesis using True p assms(2) by (simp add: splice_step_def tag_freeL_push_text)
next
  case False
  then show ?thesis using assms by (simp add: splice_step_def)
qed

lemma tag_freeL_foldl_splice:
  "tag_freeL T (snd acc) \<Longrightarrow> (\<And>k. k \<in> set ks \<Longrightarrow> tag_freeL T (children k)) \<Longrightarrow>
   tag_freeL T (snd (foldl (splice_step T) acc ks))"
proof (induction ks arbitrary: acc)
  case Nil
  then show ?case by simp
next
  case (Cons k ks)
  have "tag_freeL T (snd (splice_step T acc k))"
    by (rule tag_freeL_splice_step) (use Cons.prems in auto)
  then show ?case using Cons by simp
qed

lemma stripTags_tag_free: "tag_free T (stripTags T n)"
proof (induction n)
  case (Element t a x y cs)
  obtain x' cs' where f: "foldl (splice_step T) (x, []) (map (stripTags T) cs) = (x', cs')"
    by (cases "foldl (splice_step T) (x, []) (map (stripTags T) cs)")
  have "tag_freeL T (snd (foldl (splice_step T) (x, []) (map (stripTags T) cs)))"
    by (rule tag_freeL_foldl_splice) (use Element in \<open>auto simp: tag_free_children\<close>)
  then show ?case using f by (simp add: tag_free_children)
qed

lemma foldl_splice_no_match:
  "(\<And>k. k \<in> set ks \<Longrightarrow> tag k \<notin> T) \<Longrightarrow>
   foldl (splice_step T) acc ks = (fst acc, snd acc @ ks)"
  by (induction ks arbitrary: acc) (auto simp: splice_step_def)

lemma tag_freeL_member: "tag_freeL T cs \<Longrightarrow> c \<in> set cs \<Longrightarrow> tag c \<notin> T \<and> tag_freeL T (children c)"
  by (induction cs) auto

lemma stripTags_id: "tag_free T n \<Longrightarrow> stripTags T n = n"
proof (induction n)
  case (Element t a x y cs)
  have c: "tag c \<notin> T \<and> tag_free T c" if "c \<in> set cs" for c
    using Element.prems that tag_freeL_member[of T cs c] by (simp add: tag_free_children)
  then have "map (stripTags T) cs = cs" using Element.IH by (simp add: map_idI)
  then show ?case using c by (simp add: foldl_splice_no_match)
qed

lemma tag_free_subset: "keys m \<subseteq> keys n \<Longrightarrow> tag_free T n \<Longrightarrow> tag_free T m"
  by (auto simp: tag_free_def)

lemma tag_free_mono: "S \<subseteq> T \<Longrightarrow> tag_free T n \<Longrightarrow> tag_free S n"
  by (auto simp: tag_free_def)

lemma keys_add_newline_to_br:
  "key (add_newline_to_br n) = key n \<and> keys (add_newline_to_br n) \<subseteq> keys n"
proof (induction n)
  case (Element t a x y cs)
  have "keysL (map (\<lambda>c. if tag c = ''br'' then set_text (Some newline_marker) (add_newline_to_br c)
                 else add_newline_to_br c) cs) \<subseteq> keysL cs"
    by (rule keysL_map_subset) (use Element in \<open>auto simp: keys_def\<close>)
  then show ?case by (simp add: keys_def key_def)
qed

lemma add_newline_to_br_id: "tag_free {''br''} n \<Longrightarrow> add_newline_to_br n = n"
proof (induction n)
  case (Element t a x y cs)
  have c: "tag c \<noteq> ''br'' \<and> tag_free {''br''} c" if "c \<in> set cs" for c
    using Element.prems that tag_freeL_member[of "{''br''}" cs c] by (simp add: tag_free_children)
  then have "map (\<lambda>c. if tag c = ''br'' then set_text (Some newline_marker) (add_newline_to_br c)
                 else add_newline_to_br c) cs = cs"
    using Element.IH by (simp add: map_idI)
  then show ?case by simp
qed

lemma keys_empty_below: "key (empty_below n) = key n \<and> keys (empty_below n) \<subseteq> keys n"
proof (induction n)
  case (Element t a x y cs)
  have "keysL (rev (filter (\<lambda>c. \<not> is_empty_tag c) (map empty_below (rev cs))))
      \<subseteq> keysL (map empty_below cs)"
    by (rule keysL_mono) auto
  also have "\<dots> \<subseteq> keysL cs"
    by (rule keysL_map_subset) (use Element in \<open>auto simp: keys_def\<close>)
  finally show ?case by (simp add: keys_def key_def)
qed

lemma empty_below_idem: "empty_below (empty_below n) = empty_below n"
proof (induction n)
  case (Element t a x y cs)
  have "map empty_below (filter (\<lambda>c. \<not> is_empty_tag c) (map empty_below (rev cs))) =
        filter (\<lambda>c. \<not> is_empty_tag c) (map empty_below (rev cs))"
    using Element by (auto intro!: map_idI)
  then have "map empty_below (rev (rev (filter (\<lambda>c. \<not> is_empty_tag c) (map empty_below (rev cs))))) =
        filter (\<lambda>c. \<not> is_empty_tag c) (map empty_below (rev cs))"
    by simp
  then show ?case by simp
qed

lemma filter_length_eq: "length (filter P xs) = length xs \<Longrightarrow> filter P xs = xs"
proof (induction xs)
  case Nil
  then show ?case by simp
next
  case (Cons x xs)
  have le: "length (filter P xs) \<le> length xs" by simp
  show ?case
  proof (cases "P x")
    case True
    with Cons show ?thesis by simp
  next
    case False
    with Cons.prems le show ?thesis by simp
  qed
qed

lemma filter_map_fixed:
  "filter P (map f xs) = xs \<longleftrightarrow> (\<forall>x \<in> set xs. P x \<and> f x = x)"
proof
  assume e: "filter P (map f xs) = xs"
  then have "length (filter P (map f xs)) = length (map f xs)" by simp
  then have "filter P (map f xs) = map f xs" by (rule filter_length_eq)
  with e have m: "map f xs = map (\<lambda>x. x) xs" by simp
  then have fx: "\<forall>x \<in> set xs. f x = x" unfolding map_eq_conv .
  from e have "set xs = set (filter P (map f xs))" by simp
  then have "\<forall>x \<in> set xs. P x" by auto
  with fx show "\<forall>x \<in> set xs. P x \<and> f x = x" by simp
next
  assume a: "\<forall>x \<in> set xs. P x \<and> f x = x"
  then have "map f xs = xs" by (simp add: map_idI)
  with a show "filter P (map f xs) = xs" by simp
qed

lemma empty_below_fixed:
  "empty_below n = n \<longleftrightarrow> (\<forall>c \<in> set (children n). \<not> is_empty_tag c \<and> empty_below c = c)"
proof (cases n)
  case (Element t a x y cs)
  have "rev (filter (\<lambda>c. \<not> is_empty_tag c) (map empty_below (rev cs))) = cs \<longleftrightarrow>
        filter (\<lambda>c. \<not> is_empty_tag c) (map empty_below (rev cs)) = rev cs"
    by (auto simp: rev_swap)
  also have "\<dots> \<longleftrightarrow> (\<forall>c \<in> set (rev cs). \<not> is_empty_tag c \<and> empty_below c = c)"
    by (rule filter_map_fixed)
  finally show ?thesis using Element by simp
qed

lemma empty_below_butlast:
  assumes "empty_below n = n"
  shows "empty_below (set_children (butlast (children n)) n) = set_children (butlast (children n)) n"
proof -
  from assms have "\<forall>c \<in> set (children n). \<not> is_empty_tag c \<and> empty_below c = c"
    by (simp only: empty_below_fixed[of n])
  then have "\<forall>c \<in> set (butlast (children n)). \<not> is_empty_tag c \<and> empty_below c = c"
    by (auto dest: in_set_butlastD)
  then show ?thesis
    by (simp only: empty_below_fixed[of "set_children (butlast (children n)) n"] set_simps)
qed

lemma all_desc_keys:
  assumes "\<And>c d. key c = key d \<Longrightarrow> P c = P d" "keys m \<subseteq> keys n" "all_desc P n"
  shows "all_desc P m"
  unfolding all_desc_def
proof
  fix d assume "d \<in> set (descendants m)"
  then have "key d \<in> keys n" using assms(2) by (auto simp: keys_descendants)
  then obtain d' where d': "d' \<in> set (descendants n)" "key d' = key d"
    by (auto simp: keys_descendants)
  from d'(1) assms(3) have "P d'" by (simp add: all_desc_def)
  with assms(1)[OF d'(2)] show "P d" by simp
qed

lemma set_iter: "set (iter c) = insert c (set (descendants c))"
  by (cases c) (simp add: descendants_def)

lemma descendants_children:
  "set (descendants n) = set (children n) \<union> (\<Union>c \<in> set (children n). set (descendants c))"
proof -
  have "set (descendants n) = (\<Union>c \<in> set (children n). set (iter c))"
    by (simp add: descendants_def)
  also have "\<dots> = (\<Union>c \<in> set (children n). insert c (set (descendants c)))"
    by (simp only: set_iter)
  also have "\<dots> = set (children n) \<union> (\<Union>c \<in> set (children n). set (descendants c))"
    by blast
  finally show ?thesis .
qed

lemma all_desc_children:
  "all_desc P n = (\<forall>c \<in> set (children n). P c \<and> all_desc P c)"
proof -
  have "all_desc P n = (\<forall>d \<in> set (children n) \<union> (\<Union>c \<in> set (children n). set (descendants c)). P d)"
    by (simp only: all_desc_def descendants_children[of n])
  also have "\<dots> = (\<forall>c \<in> set (children n). P c \<and> (\<forall>d \<in> set (descendants c). P d))"
    by blast
  finally show ?thesis by (simp only: all_desc_def)
qed

lemma all_desc_Element:
  "all_desc P (Element t a x y cs) = (\<forall>c \<in> set cs. P c \<and> all_desc P c)"
  by (simp add: all_desc_children[of P "Element t a x y cs"])

lemma gravity_score_key: "key c = key d \<Longrightarrow> gravity_score c = gravity_score d"
  by (simp add: gravity_score_def getAttribute_def get_attr_def key_def)

lemma low_item_key: "key c = key d \<Longrightarrow> low_item c = low_item d"
  using gravity_score_key[of c d] by (simp add: low_item_def get_attr_def key_def)

lemma keys_detach_low: "key (detach_low n) = key n \<and> keys (detach_low n) \<subseteq> keys n"
proof (induction n)
  case (Element t a x y cs)
  have "keysL (map detach_low (filter (\<lambda>c. \<not> low_item c) cs)) \<subseteq> keysL (filter (\<lambda>c. \<not> low_item c) cs)"
    by (rule keysL_map_subset) (use Element in \<open>auto simp: keys_def\<close>)
  also have "\<dots> \<subseteq> keysL cs" by (rule keysL_mono) auto
  finally show ?case by (simp add: keys_def key_def)
qed

lemma detach_low_none_low: "all_desc (\<lambda>d. \<not> low_item d) (detach_low n)"
proof (induction n)
  case (Element t a x y cs)
  have "\<not> low_item (detach_low c)" if "\<not> low_item c" for c
    using that low_item_key[of "detach_low c" c] keys_detach_low[of c] by simp
  then show ?case using Element by (auto simp: all_desc_Element)
qed

lemma detach_low_id: "all_desc (\<lambda>d. \<not> low_item d) n \<Longrightarrow> detach_low n = n"
proof (induction n)
  case (Element t a x y cs)
  from Element.prems have c: "\<forall>c \<in> set cs. \<not> low_item c \<and> all_desc (\<lambda>d. \<not> low_item d) c"
    by (simp add: all_desc_Element)
  then have "filter (\<lambda>c. \<not> low_item c) cs = cs" by simp
  moreover have "map detach_low cs = cs" using c Element.IH by (simp add: map_idI)
  ultimately show ?case by simp
qed

lemma score_fine_key: "key c = key d \<Longrightarrow> score_fine c = score_fine d"
  using gravity_score_key[of c d] low_item_key[of c d] by (simp add: score_fine_def)

lemma remove_negativescores_nodes_fine:
  assumes "remove_negativescores_nodes n = Inr m"
  shows "all_desc score_fine m"
proof -
  from assms have nf: "\<not> (\<exists>item \<in> set (css_select_gravity n). gravity_score item = Inl ValueError)"
    and m: "m = detach_low n"
    by (auto simp: remove_negativescores_nodes_eq split: if_splits)
  from nf have "all_desc (\<lambda>d. gravity_score d \<noteq> Inl ValueError) n"
    unfolding css_select_gravity_fails by (auto simp: all_desc_def)
  moreover have "(gravity_score c \<noteq> Inl ValueError) = (gravity_score d \<noteq> Inl ValueError)"
    if "key c = key d" for c d
    by (simp only: gravity_score_key[OF that])
  moreover have "keys m \<subseteq> keys n"
    unfolding m by (rule keys_detach_low[THEN conjunct2])
  ultimately have "all_desc (\<lambda>d. gravity_score d \<noteq> Inl ValueError) m"
    by (rule all_desc_keys[rotated 2])
  moreover have "all_desc (\<lambda>d. \<not> low_item d) m" unfolding m by (rule detach_low_none_low)
  ultimately show ?thesis by (auto simp: all_desc_def score_fine_def)
qed

lemma remove_negativescores_nodes_id:
  assumes "all_desc score_fine n"
  shows "remove_negativescores_nodes n = Inr n"
proof -
  from assms have "\<not> (\<exists>item \<in> set (css_select_gravity n). gravity_score item = Inl ValueError)"
    unfolding css_select_gravity_fails by (auto simp: all_desc_def score_fine_def)
  moreover from assms have "all_desc (\<lambda>d. \<not> low_item d) n"
    by (auto simp: all_desc_def score_fine_def)
  ultimately show ?thesis by (simp add: remove_negativescores_nodes_eq detach_low_id)
qed

lemma key_flatten_li [simp]: "key (flatten_li e) = key e"
  by (simp add: key_def)

lemma keysL_flatten_first: "keysL (flatten_first k cs) \<subseteq> keysL cs"
  by (induction k cs rule: flatten_first.induct) (auto simp: key_def)

lemma keysL_li_below: "keysL (li_below cs) \<subseteq> keysL cs"
proof (induction cs rule: li_below.induct)
  case 1
  then show ?case by simp
next
  case (2 c cs)
  define c1 where "c1 = (if tag c = ''ul'' then normalize_ul c else c)"
  have k1: "key c1 = key c" "keysL (children c1) \<subseteq> keysL (children c)"
    using keysL_flatten_first by (auto simp: c1_def normalize_ul_def Let_def)
  from "2.IH"(1)[OF c1_def] have "keysL (li_below (children c1)) \<subseteq> keysL (children c1)" .
  with k1 "2.IH"(2)[OF c1_def] show ?case
    by (auto simp: c1_def[symmetric] Let_def)
qed

lemma keys_add_newline_to_li: "keys (add_newline_to_li n) \<subseteq> keys n"
  using keysL_li_below by (simp add: add_newline_to_li_def keys_def)

lemma flatten_first_zero: "flatten_first 0 cs = cs"
  by (cases "(0::nat, cs)" rule: flatten_first.cases) auto

lemma short_lists_Cons:
  "short_lists (c # cs) =
     ((tag c = ''ul'' \<longrightarrow> length (getElementsByTag c ''li'') \<le> 1) \<and> short_lists (children c) \<and> short_lists cs)"
  by (auto simp: short_lists_def iter_Cons[of c])

lemma li_below_id: "short_lists cs \<Longrightarrow> li_below cs = cs"
proof (induction cs rule: li_below.induct)
  case 1
  then show ?case by simp
next
  case (2 c cs)
  define c1 where "c1 = (if tag c = ''ul'' then normalize_ul c else c)"
  from "2.prems" have s: "tag c = ''ul'' \<longrightarrow> length (getElementsByTag c ''li'') \<le> 1"
    "short_lists (children c)" "short_lists cs" by (simp_all add: short_lists_Cons)
  have "set_children (children c) c = c" by (cases c) (simp add: set_children_def)
  with s(1) have c1: "c1 = c"
    by (auto simp: c1_def normalize_ul_def Let_def flatten_first_zero)
  from "2.IH"(1)[OF c1_def] s(2) c1 have "li_below (children c1) = children c" by simp
  moreover from "2.IH"(2)[OF c1_def] s(3) have "li_below cs = cs" by simp
  ultimately show ?case using c1 \<open>set_children (children c) c = c\<close>
    by (simp add: c1_def[symmetric] Let_def)
qed

lemma add_newline_to_li_id:
  assumes "\<forall>u \<in> set (getElementsByTag n ''ul''). length (getElementsByTag u ''li'') \<le> 1"
  shows "add_newline_to_li n = n"
proof -
  from assms have "short_lists (children n)"
    by (auto simp: short_lists_def getElementsByTag_def descendants_def)
  then have "li_below (children n) = children n" by (rule li_below_id)
  then show ?thesis by (cases n) (simp add: add_newline_to_li_def set_children_def)
qed

lemma keys_remove_trailing_media_div: "keys (remove_trailing_media_div n) \<subseteq> keys n"
proof -
  have "keysL (butlast (children n)) \<subseteq> keysL (children n)"
    by (rule keysL_mono) (auto dest: in_set_butlastD)
  then show ?thesis by (simp add: remove_trailing_media_div_eq keys_def)
qed

lemma keys_links_to_text: "keys (links_to_text n) \<subseteq> keys n"
  using keys_stripTags by (simp add: links_to_text_def)

lemma keys_replace_with_text: "keys (replace_with_text n) \<subseteq> keys n"
  using keys_stripTags by (simp add: replace_with_text_def)

lemma keys_remove_empty_tags: "keys (remove_empty_tags n) \<subseteq> keys n"
  using keys_empty_below by (simp add: remove_empty_tags_def)

lemma cleanup_pipeline_later:
  "cleanup_pipeline n =
     (case remove_negativescores_nodes n of Inl e \<Rightarrow> Inl e | Inr pruned \<Rightarrow> Inr (later_passes pruned))"
  by (simp add: cleanup_pipeline_def later_passes_def split: sum.splits)

lemma remove_trailing_keeps_fixed:
  assumes "empty_below e = e"
  shows "empty_below (remove_trailing_media_div e) = remove_trailing_media_div e"
  using assms empty_below_butlast[OF assms] by (simp add: remove_trailing_media_div_eq)

lemma later_passes_props:
  "keys (later_passes p) \<subseteq> keys p"
  "tag_free {''a''} (later_passes p)"
  "tag_free {''b'', ''strong'', ''i'', ''br'', ''sup''} (later_passes p)"
  "empty_below (later_passes p) = later_passes p"
proof -
  let ?l = "links_to_text p"
  let ?b = "add_newline_to_br ?l"
  let ?i = "add_newline_to_li ?b"
  let ?r = "replace_with_text ?i"
  let ?e = "remove_empty_tags ?r"
  let ?t = "remove_trailing_media_div ?e"
  have t: "later_passes p = ?t" by (simp add: later_passes_def)
  have k1: "keys ?t \<subseteq> keys ?e" by (rule keys_remove_trailing_media_div)
  have k2: "keys ?e \<subseteq> keys ?r" by (rule keys_remove_empty_tags)
  have k3: "keys ?r \<subseteq> keys ?i" by (rule keys_replace_with_text)
  have k4: "keys ?i \<subseteq> keys ?b" by (rule keys_add_newline_to_li)
  have k5: "keys ?b \<subseteq> keys ?l" using keys_add_newline_to_br by blast
  have k6: "keys ?l \<subseteq> keys p" by (rule keys_links_to_text)
  from k1 k2 k3 k4 k5 k6 show "keys (later_passes p) \<subseteq> keys p" unfolding t by blast
  have "tag_free {''a''} ?l" unfolding links_to_text_def by (rule stripTags_tag_free)
  moreover from k1 k2 k3 k4 k5 have "keys ?t \<subseteq> keys ?l" by blast
  ultimately show "tag_free {''a''} (later_passes p)" unfolding t by (rule tag_free_subset[rotated])
  have "tag_free {''b'', ''strong'', ''i'', ''br'', ''sup''} ?r"
    unfolding replace_with_text_def by (rule stripTags_tag_free)
  moreover from k1 k2 have "keys ?t \<subseteq> keys ?r" by blast
  ultimately show "tag_free {''b'', ''strong'', ''i'', ''br'', ''sup''} (later_passes p)"
    unfolding t by (rule tag_free_subset[rotated])
  have "empty_below ?e = ?e" unfolding remove_empty_tags_def by (rule empty_below_idem)
  then show "empty_below (later_passes p) = later_passes p"
    unfolding t by (rule remove_trailing_keeps_fixed)
qed

lemma second_run:
  assumes run: "cleanup_pipeline top_node = Inr cleaned"
    and lists: "\<forall>u \<in> set (getElementsByTag cleaned ''ul''). length (getElementsByTag u ''li'') \<le> 1"
    and trail: "length (children cleaned) < 3 \<or> children (last (children cleaned)) = []"
  shows "cleanup_pipeline cleaned = Inr cleaned"
proof -
  from run obtain pruned where p: "remove_negativescores_nodes top_node = Inr pruned"
    and c: "cleaned = later_passes pruned"
    by (auto simp: cleanup_pipeline_later split: sum.splits)
  have "all_desc score_fine pruned" using p by (rule remove_negativescores_nodes_fine)
  moreover have "score_fine a = score_fine b" if "key a = key b" for a b
    using that by (rule score_fine_key)
  moreover have "keys cleaned \<subseteq> keys pruned" unfolding c by (rule later_passes_props)
  ultimately have "all_desc score_fine cleaned" by (rule all_desc_keys[rotated 2])
  then have s1: "remove_negativescores_nodes cleaned = Inr cleaned"
    by (rule remove_negativescores_nodes_id)
  have "tag_free {''a''} cleaned" unfolding c by (rule later_passes_props)
  then have s2: "links_to_text cleaned = cleaned" by (simp add: links_to_text_def stripTags_id)
  have inl: "tag_free {''b'', ''strong'', ''i'', ''br'', ''sup''} cleaned"
    unfolding c by (rule later_passes_props)
  then have "tag_free {''br''} cleaned" by (rule tag_free_mono[rotated]) simp
  then have s3: "add_newline_to_br cleaned = cleaned" by (rule add_newline_to_br_id)
  have s4: "add_newline_to_li cleaned = cleaned" using lists by (rule add_newline_to_li_id)
  have s5: "replace_with_text cleaned = cleaned"
    using inl by (simp add: replace_with_text_def stripTags_id)
  have "empty_below cleaned = cleaned" unfolding c by (rule later_passes_props)
  then have s6: "remove_empty_tags cleaned = cleaned" by (simp add: remove_empty_tags_def)
  have s7: "remove_trailing_media_div cleaned = cleaned"
    using trail by (auto simp: remove_trailing_media_div_eq spec_depth_leaf)
  show ?thesis
    by (simp add: cleanup_pipeline_def s1 s2 s3 s4 s5 s6 s7)
qed


section \<open>List items after the normalisation\<close>

lemma flattened_children: "flattened li \<Longrightarrow> children li = []"
  by (auto simp: flattened_def)

lemma flattened_flatten_li: "flattened (flatten_li c)"
  by (auto simp: flattened_def)

lemma all_but_last_Nil [simp]: "all_but_last []"
  by (simp add: all_but_last_def)

lemma all_but_last_infix: "all_but_last (xs @ ys @ zs) \<Longrightarrow> all_but_last ys"
proof -
  assume a: "all_but_last (xs @ ys @ zs)"
  have "set (butlast ys) \<subseteq> set (butlast (xs @ ys @ zs))"
    by (cases "ys = []") (auto simp: butlast_append dest: in_set_butlastD)
  with a show ?thesis by (auto simp: all_but_last_def)
qed

lemma all_but_last_prefix: "all_but_last (ys @ zs) \<Longrightarrow> all_but_last ys"
  using all_but_last_infix[of "[]" ys zs] by simp

lemma all_but_last_suffix: "all_but_last (xs @ ys) \<Longrightarrow> all_but_last ys"
  using all_but_last_infix[of xs ys "[]"] by simp

lemma all_but_last_not_flat:
  "all_but_last (x # xs) \<Longrightarrow> \<not> flattened x \<Longrightarrow> xs = []"
  by (cases xs) (auto simp: all_but_last_def)

lemma all_but_last_all2:
  assumes "list_all2 stays_flat xs ys" "all_but_last xs"
  shows "all_but_last ys"
proof -
  from assms(1) have "list_all2 stays_flat (butlast xs) (butlast ys)"
    by (simp add: list_all2_conv_all_nth nth_butlast)
  then have "\<forall>y \<in> set (butlast ys). \<exists>x \<in> set (butlast xs). stays_flat x y"
    by (metis in_set_conv_nth list_all2_conv_all_nth)
  with assms(2) show ?thesis by (auto simp: all_but_last_def stays_flat_def)
qed

lemma stays_flat_refl: "list_all2 stays_flat xs xs"
  by (simp add: list_all2_refl stays_flat_def)

lemma stays_flat_trans:
  "list_all2 stays_flat xs ys \<Longrightarrow> list_all2 stays_flat ys zs \<Longrightarrow> list_all2 stays_flat xs zs"
proof -
  assume a: "list_all2 stays_flat xs ys" and b: "list_all2 stays_flat ys zs"
  have "stays_flat p r" if "stays_flat p q" "stays_flat q r" for p q r
    using that by (simp add: stays_flat_def)
  then show ?thesis using a b by (rule list_all2_trans)
qed

lemma flatten_first_stays:
  "all_but_last (lis cs) \<Longrightarrow> list_all2 stays_flat (lis cs) (lis (flatten_first k cs))"
proof (induction k cs rule: flatten_first.induct)
  case (1 k)
  then show ?case by simp
next
  case (2 k t a x y ks cs)
  let ?c = "Element t a x y ks"
  show ?case
  proof (cases "k = 0")
    case True
    then show ?thesis by (simp add: stays_flat_refl)
  next
    case k: False
    show ?thesis
    proof (cases "t = ''li''")
      case li: True
      with "2.prems" have abl: "all_but_last (?c # lis ks @ lis cs)" by (simp add: lis_Cons)
      have ks: "lis ks = []"
      proof (cases "flattened ?c")
        case True
        then have "ks = []" using flattened_children[of ?c] by simp
        then show ?thesis by simp
      next
        case False
        with abl show ?thesis using all_but_last_not_flat by fastforce
      qed
      from abl have "all_but_last (lis cs)"
        using all_but_last_suffix[of "[?c]" "lis ks @ lis cs"] all_but_last_suffix[of "lis ks" "lis cs"]
        by simp
      with "2.IH"(1)[OF k li] have "list_all2 stays_flat (lis cs)
          (lis (flatten_first (k - 1 - length (getElementsByTag ?c ''li'')) cs))" by simp
      moreover have "stays_flat ?c (flatten_li ?c)"
        by (simp add: stays_flat_def flattened_flatten_li)
      ultimately show ?thesis using k li ks by (simp add: lis_Cons lis_flatten_li)
    next
      case nli: False
      with "2.prems" have abl: "all_but_last (lis ks @ lis cs)" by (simp add: lis_Cons)
      then have "all_but_last (lis ks)" "all_but_last (lis cs)"
        using all_but_last_prefix all_but_last_suffix by blast+
      with "2.IH"(2,3)[OF k nli] have
        "list_all2 stays_flat (lis ks) (lis (flatten_first k ks))"
        "list_all2 stays_flat (lis cs)
          (lis (flatten_first (k - length (getElementsByTag ?c ''li'')) cs))" by simp_all
      then show ?thesis using k nli by (simp add: lis_Cons list_all2_appendI)
    qed
  qed
qed

lemma lis_element: "lis (c # cs) = (if tag c = ''li'' then [c] else []) @ lis (children c) @ lis cs"
  by (cases c) (simp add: lis_Cons)

lemma normalize_ul_all_but_last: "all_but_last (lis (children (normalize_ul c)))"
  unfolding all_but_last_def
proof
  fix li assume "li \<in> set (butlast (lis (children (normalize_ul c))))"
  then have "li \<in> set (butlast (getElementsByTag (normalize_ul c) ''li''))"
    by (simp add: getElementsByTag_lis)
  from normalize_ul_items[OF this] show "flattened li" by (auto simp: flattened_def)
qed

lemma normalize_ul_stays:
  "all_but_last (lis (children c)) \<Longrightarrow>
   list_all2 stays_flat (lis (children c)) (lis (children (normalize_ul c)))"
  by (simp add: normalize_ul_def Let_def flatten_first_stays)

lemma li_below_stays:
  "all_but_last (lis ds) \<Longrightarrow> list_all2 stays_flat (lis ds) (lis (li_below ds))"
proof (induction ds rule: li_below.induct)
  case 1
  then show ?case by simp
next
  case (2 d ds)
  define d1 where "d1 = (if tag d = ''ul'' then normalize_ul d else d)"
  define d2 where "d2 = set_children (li_below (children d1)) d1"
  have res: "li_below (d # ds) = d2 # li_below ds"
    by (simp add: d1_def d2_def Let_def)
  have tag2: "tag d2 = tag d" by (simp add: d2_def d1_def normalize_ul_def Let_def)
  have ch2: "children d2 = li_below (children d1)" by (simp add: d2_def)
  from "2.prems" have whole:
    "all_but_last ((if tag d = ''li'' then [d] else []) @ lis (children d) @ lis ds)"
    by (simp add: lis_element[of d])
  then have abl_ds: "all_but_last (lis ds)"
    using all_but_last_suffix[of "(if tag d = ''li'' then [d] else []) @ lis (children d)" "lis ds"]
    by simp
  from whole have abl_ch: "all_but_last (lis (children d))"
    by (rule all_but_last_infix)
  have tail: "list_all2 stays_flat (lis ds) (lis (li_below ds))"
    using "2.IH"(2)[OF d1_def abl_ds] .
  have inner: "list_all2 stays_flat (lis (children d)) (lis (li_below (children d1)))"
  proof (cases "tag d = ''ul''")
    case True
    then have e: "d1 = normalize_ul d" by (simp add: d1_def)
    have a: "list_all2 stays_flat (lis (children d)) (lis (children d1))"
      unfolding e using abl_ch by (rule normalize_ul_stays)
    have "all_but_last (lis (children d1))" unfolding e by (rule normalize_ul_all_but_last)
    from "2.IH"(1)[OF d1_def this] a show ?thesis by (rule stays_flat_trans[rotated])
  next
    case False
    then have "d1 = d" by (simp add: d1_def)
    with "2.IH"(1)[OF d1_def] abl_ch show ?thesis by simp
  qed
  have self: "list_all2 stays_flat
      ((if tag d = ''li'' then [d] else []) @ lis (children d))
      ((if tag d2 = ''li'' then [d2] else []) @ lis (children d2))"
  proof (cases "tag d = ''li''")
    case False
    with inner tag2 ch2 show ?thesis by simp
  next
    case li: True
    show ?thesis
    proof (cases "flattened d")
      case True
      then have "children d = []" by (rule flattened_children)
      moreover have "d1 = d" using li by (simp add: d1_def)
      ultimately have "d2 = d" by (cases d) (simp add: d2_def set_children_def)
      with li \<open>children d = []\<close> show ?thesis by (simp add: stays_flat_def)
    next
      case False
      from whole li have "all_but_last (d # lis (children d) @ lis ds)" by simp
      then have "lis (children d) @ lis ds = []" using False by (rule all_but_last_not_flat)
      then have e: "lis (children d) = []" by simp
      with inner have "lis (li_below (children d1)) = []" by simp
      with e li tag2 ch2 False show ?thesis by (simp add: stays_flat_def)
    qed
  qed
  have "list_all2 stays_flat
      (((if tag d = ''li'' then [d] else []) @ lis (children d)) @ lis ds)
      (((if tag d2 = ''li'' then [d2] else []) @ lis (children d2)) @ lis (li_below ds))"
    using self tail by (rule list_all2_appendI)
  then show ?case unfolding res by (simp add: lis_element[of d] lis_element[of d2])
qed

lemma lists_normalized_Cons:
  "lists_normalized (c # cs) =
     ((tag c = ''ul'' \<longrightarrow> all_but_last (lis (children c))) \<and> lists_normalized (children c) \<and>
      lists_normalized cs)"
  by (auto simp: lists_normalized_def iter_Cons[of c])

lemma li_below_normalized: "lists_normalized (li_below cs)"
proof (induction cs rule: li_below.induct)
  case 1
  then show ?case by (simp add: lists_normalized_def)
next
  case (2 c cs)
  define c1 where "c1 = (if tag c = ''ul'' then normalize_ul c else c)"
  define c2 where "c2 = set_children (li_below (children c1)) c1"
  have res: "li_below (c # cs) = c2 # li_below cs"
    by (simp add: c1_def c2_def Let_def)
  have "all_but_last (lis (children c2))" if "tag c2 = ''ul''"
  proof -
    from that have "tag c = ''ul''"
      by (simp add: c2_def c1_def normalize_ul_def Let_def split: if_splits)
    then have e: "c1 = normalize_ul c" by (simp add: c1_def)
    have a: "all_but_last (lis (children c1))" unfolding e by (rule normalize_ul_all_but_last)
    from li_below_stays[OF a] a have "all_but_last (lis (li_below (children c1)))"
      by (rule all_but_last_all2)
    then show ?thesis by (simp add: c2_def)
  qed
  moreover have "lists_normalized (children c2)"
    using "2.IH"(1)[OF c1_def] by (simp add: c2_def)
  moreover have "lists_normalized (li_below cs)" using "2.IH"(2)[OF c1_def] .
  ultimately show ?case unfolding res by (simp add: lists_normalized_Cons)
qed

lemma add_newline_to_li_items:
  assumes "u \<in> set (getElementsByTag (add_newline_to_li top_node) ''ul'')"
    and "li \<in> set (butlast (getElementsByTag u ''li''))"
  shows "\<exists>orig. li = flatten_li orig"
proof -
  have "lists_normalized (li_below (children top_node))" by (rule li_below_normalized)
  moreover from assms(1) have "u \<in> set (concat (map iter (li_below (children top_node))))" "tag u = ''ul''"
    by (auto simp: getElementsByTag_def descendants_def add_newline_to_li_def)
  ultimately have "all_but_last (lis (children u))" by (auto simp: lists_normalized_def)
  with assms(2) show ?thesis by (auto simp: all_but_last_def getElementsByTag_lis flattened_def)
qed


section \<open>Claims about exclusion and extraction\<close>

lemma prevnext_div_excluded: "is_excluded None prevnext_div"
  unfolding prevnext_div_def by code_simp

lemma prevnext_div_not_spec: "\<not> spec_is_excluded None prevnext_div"
  unfolding prevnext_div_def by code_simp

text \<open>
  Claim C2, as amended. \<open>is_excluded\<close> holds exactly when one of the six conditions
  holds, where page navigation tests the trimmed direct text and a paragraph's id against
  the same two-element set: beyond the spec's wording, a node whose trimmed text is the
  sentinel id \<open>prevnext\<close> and a paragraph whose id is the sentinel phrase are excluded
  too. The methods are pure, so the order of the loop does not show in the result.
\<close>
theorem C2_is_excluded_conditions:
  "is_excluded parent node =
     (spec_is_excluded parent node \<or> strip (or_empty (node_text node)) = ''prevnext'' \<or>
      (tag node = ''p'' \<and> get_attr node ''id'' = Some navigation_phrase))"
  by (rule is_excluded_iff)

theorem C2_witness: "is_excluded None prevnext_div \<and> strip (or_empty (node_text prevnext_div)) = ''prevnext''"
  using C2_is_excluded_conditions[of None prevnext_div]
  by (simp add: prevnext_div_def or_empty_def strip_def isspace_def)

theorem C2_counterexample: "is_excluded None prevnext_div \<and> \<not> spec_is_excluded None prevnext_div"
  using prevnext_div_excluded prevnext_div_not_spec by simp

lemma marked_paragraph_fragments:
  "extract_text (\<lambda>s. s) None marked_paragraph None = [''A '', '' '', '' B'']"
  unfolding marked_paragraph_def by code_simp

text \<open>
  Claim C3. No fragment that \<open>extract_text\<close> yields contains the newline marker (a
  backslash followed by n), no fragment of the flattened sequence does, and the joined
  text of \<open>convert_to_text\<close> does not contain it either.
\<close>
theorem C3_no_marker_in_fragments:
  "(\<forall>f \<in> set (extract_text charrefs parent node title). \<not> sublist newline_marker f) \<and>
   (\<forall>f \<in> set (flattened_elements charrefs top_node title). \<not> sublist newline_marker f) \<and>
   \<not> sublist newline_marker (convert_to_text charrefs top_node title)"
  using extract_text_no_marker flattened_elements_no_marker convert_to_text_no_marker by blast

theorem C3_witness:
  "\<not> sublist newline_marker ''A '' \<and> set (extract_text (\<lambda>s. s) None marked_paragraph None) = {''A '', '' '', '' B''}"
  using C3_no_marker_in_fragments[of "\<lambda>s. s" None marked_paragraph None]
  by (simp add: marked_paragraph_fragments)

lemma kicker_fragments:
  "flattened_elements (\<lambda>s. s) kicker_top None = [''Breaking'', ''Breaking news today'']"
  unfolding kicker_top_def by code_simp

lemma blank_first_fragments:
  "flattened_elements (\<lambda>s. s) blank_first_top None = ['' '', ''B'']"
  unfolding blank_first_top_def by code_simp

lemma blank_first_text:
  "convert_to_text (\<lambda>s. s) blank_first_top None = '' '' @ blank_line @ ''B''"
  unfolding blank_first_top_def by code_simp

lemma kicker_text:
  "convert_to_text (\<lambda>s. s) kicker_top None = ''Breaking news today''"
  unfolding kicker_top_def by code_simp

text \<open>
  Claim C5, as amended. \<open>convert_to_text\<close> drops the first fragment exactly when it
  has exactly one whitespace-separated word (a first fragment of blanks has none and is
  kept); the text is the retained fragments joined by blank lines, with no separator
  after the last. When the first fragment is a single word the text is the join of the
  fragments after it.
\<close>
theorem C5_first_fragment:
  "convert_to_text charrefs top_node title =
     (case flattened_elements charrefs top_node title of [] \<Rightarrow> []
      | f # rest \<Rightarrow> if length (py_split f) = 1 then join blank_line rest
                     else join blank_line (f # rest))"
  by (rule convert_to_text_first)

theorem C5_witness:
  "convert_to_text (\<lambda>s. s) kicker_top None = ''Breaking news today''"
  using C5_first_fragment[of "\<lambda>s. s" kicker_top None]
  by (simp add: kicker_fragments py_split_def isspace_def)

theorem C5_counterexample:
  "flattened_elements (\<lambda>s. s) blank_first_top None = ['' '', ''B''] \<and>
   length (py_split '' '') = 0 \<and>
   convert_to_text (\<lambda>s. s) blank_first_top None = '' '' @ blank_line @ ''B'' \<and>
   flattened_elements (\<lambda>s. s) kicker_top None = [''Breaking'', ''Breaking news today''] \<and>
   length (py_split ''Breaking'') = 1 \<and>
   prefix ''Breaking'' (convert_to_text (\<lambda>s. s) kicker_top None)"
  by (simp add: blank_first_fragments blank_first_text kicker_fragments kicker_text
      py_split_def isspace_def)

lemma caption_figure_excluded: "is_excluded None caption_figure"
  unfolding caption_figure_def by code_simp

lemma empty_paragraph_not_excluded: "\<not> is_excluded None empty_paragraph"
  unfolding empty_paragraph_def by code_simp




lemma marked_paragraph_not_excluded: "\<not> is_excluded None marked_paragraph"
  unfolding marked_paragraph_def by code_simp

lemma marked_paragraph_fragments_any:
  "extract_text charrefs None marked_paragraph None = [''A '', '' '', '' B'']"
proof -
  have "split_on newline_marker []
     (innerTrim (unescape charrefs (''A '' @ newline_marker @ '' '' @ newline_marker @ '' B''))) =
     [''A '', '' '', '' B'']"
    by (simp add: unescape_def newline_marker_def innerTrim_def strip_def isspace_def split_on.simps)
  then show ?thesis
    using marked_paragraph_not_excluded
    by (simp add: marked_paragraph_def extract_text_def Let_def truthy_def text_parts_def)
qed




section \<open>Claims about the cleanup passes\<close>

lemma scored_top_parses:
  "\<not> (\<exists>item \<in> set (css_select_gravity scored_top). gravity_score item = Inl ValueError)"
  unfolding scored_top_def by code_simp

lemma scored_top_detach: "detach_low scored_top = scored_top_pruned"
  unfolding scored_top_def scored_top_pruned_def by code_simp

lemma malformed_score_raises: "remove_negativescores_nodes malformed_score_top = Inl ValueError"
  unfolding malformed_score_top_def by code_simp

lemma malformed_score_aborts:
  "get_formatted (\<lambda>n. []) (\<lambda>s. s) False (Some malformed_score_top) None = Inl ValueError"
  unfolding malformed_score_top_def by code_simp




text \<open>
  Claim C6, as amended. For a top node without children \<open>get_formatted\<close> returns the
  empty text without an error; the HTML is empty when it is not kept, and what
  \<open>convert_to_html\<close> returns for the node otherwise.
\<close>
theorem C6_empty_top_node:
  "children top_node = [] \<longrightarrow>
   get_formatted convert_to_html charrefs keep (Some top_node) title =
     Inr ([], if keep then convert_to_html top_node else [])"
  using get_formatted_no_children by blast

theorem C6_witness:
  "get_formatted (\<lambda>n. ''<div></div>'') (\<lambda>s. s) False (Some empty_top) None = Inr ([], [])"
  using C6_empty_top_node[of empty_top "\<lambda>n. ''<div></div>''" "\<lambda>s. s" False None]
  by (simp add: empty_top_def)

theorem C6_counterexample:
  "get_formatted (\<lambda>n. []) (\<lambda>s. s) False None None = Inl TypeError"
  by (simp add: get_formatted_def)

text \<open>
  Claim C9. \<open>get_depth\<close> computes the nesting depth of the spec (a leaf has depth 1,
  another element one more than its deepest child). With fewer than three direct
  children the top node is unchanged; otherwise its last direct child is removed exactly
  when the depth of that child is at least 2.
\<close>
theorem C9_trailing_media_trim:
  "get_depth node 1 = spec_depth node \<and>
   remove_trailing_media_div top_node =
     (if length (children top_node) < 3 then top_node
      else if 2 \<le> spec_depth (last (children top_node))
      then set_children (butlast (children top_node)) top_node else top_node)"
  using get_depth_spec[of node 1] remove_trailing_media_div_eq by simp

theorem C9_witness:
  "spec_depth (last (children deep_last_top)) = 3 \<and>
   length (children (remove_trailing_media_div deep_last_top)) = 3 \<and>
   remove_trailing_media_div two_children_top = two_children_top"
  using C9_trailing_media_trim[of empty_top deep_last_top]
    C9_trailing_media_trim[of empty_top two_children_top]
  by (simp add: deep_last_top_def two_children_top_def set_children_def)

lemma article_run: "cleanup_pipeline article_top = Inr article_cleaned"
  unfolding article_top_def article_cleaned_def by code_simp

lemma article_lists:
  "\<forall>u \<in> set (getElementsByTag article_cleaned ''ul''). length (getElementsByTag u ''li'') \<le> 1"
  unfolding article_cleaned_def by code_simp

lemma article_trail:
  "length (children article_cleaned) < 3 \<or> children (last (children article_cleaned)) = []"
  unfolding article_cleaned_def by code_simp

lemma ab_list_first_run: "cleanup_pipeline ab_list_top = Inr ab_list_once"
  unfolding ab_list_top_def ab_list_once_def list_item_def by code_simp

lemma ab_list_second_run: "cleanup_pipeline ab_list_once = Inr ab_list_twice"
  unfolding ab_list_twice_def ab_list_once_def list_item_def by code_simp

lemma ab_list_differs: "ab_list_once \<noteq> ab_list_twice"
  unfolding ab_list_twice_def ab_list_once_def list_item_def by code_simp

text \<open>
  Claim C4, as amended. If the first run returns a cleaned tree in which no list
  container has two or more items, and to which the trailing media trim does not apply
  (fewer than three direct children of the top node, or a last child without children),
  a second run returns the same tree: no node is removed, no text is rewritten, nothing
  is spliced.
\<close>
theorem C4_second_run:
  "cleanup_pipeline top_node = Inr cleaned \<and>
   (\<forall>u \<in> set (getElementsByTag cleaned ''ul''). length (getElementsByTag u ''li'') \<le> 1) \<and>
   (length (children cleaned) < 3 \<or> children (last (children cleaned)) = []) \<longrightarrow>
   cleanup_pipeline cleaned = Inr cleaned"
  using second_run by blast

theorem C4_witness:
  "cleanup_pipeline article_top = Inr article_cleaned \<and>
   cleanup_pipeline article_cleaned = Inr article_cleaned"
  using C4_second_run[of article_top article_cleaned] article_run article_lists article_trail
  by blast

theorem C4_counterexample:
  "cleanup_pipeline ab_list_top = Inr ab_list_once \<and>
   cleanup_pipeline ab_list_once = Inr ab_list_twice \<and>
   ab_list_once \<noteq> ab_list_twice"
  using ab_list_first_run ab_list_second_run ab_list_differs by simp

lemma abc_normalized: "normalize_ul abc_list = abc_list_cleaned"
  unfolding abc_list_def abc_list_cleaned_def list_item_def by code_simp

lemma abc_pipeline:
  "cleanup_pipeline abc_list_top = Inr (Element ''div'' [] None None [abc_list_cleaned])"
  unfolding abc_list_top_def abc_list_def abc_list_cleaned_def list_item_def by code_simp

lemma abc_fragments:
  "flattened_elements (\<lambda>s. s) (Element ''div'' [] None None [abc_list_cleaned]) None =
     [''A'', ''B'', ''C'']"
  unfolding abc_list_cleaned_def list_item_def by code_simp

lemma abc_text:
  "get_formatted (\<lambda>n. []) (\<lambda>s. s) False (Some abc_list_top) None =
     Inr (''B'' @ blank_line @ ''C'', [])"
  unfolding abc_list_top_def abc_list_def list_item_def by code_simp

lemma intro_text:
  "get_formatted (\<lambda>n. []) (\<lambda>s. s) False (Some intro_list_top) None =
     Inr (''Three letters follow'' @ blank_line @ ''A'' @ blank_line @ ''B'' @ blank_line @ ''C'', [])"
  unfolding intro_list_top_def abc_list_def list_item_def by code_simp

lemma abc_items:
  "getElementsByTag (normalize_ul abc_list) ''li'' =
     [flatten_li (list_item ''A''), flatten_li (list_item ''B''), list_item ''C'']"
  unfolding abc_list_def list_item_def by code_simp




end
